theory Spec2Isabelle
  imports Complex_Main
begin

section \<open>Python values, errors and hardware events\<close>

text \<open>
  The driver is dynamically typed: the arguments of
  \<^verbatim>\<open>Stepper(i1, i2, i3, i4)\<close> and \<^verbatim>\<open>move(step_num, speed)\<close> may be \<^verbatim>\<open>None\<close>, an integer
  or a string. These are the three kinds of argument modelled here.
\<close>

datatype pyval = PNone | PInt int | PStr string

text \<open>
  Exceptions are values. \<open>ConfigurationError\<close> is the class declared by the driver and
  carries its message; the others are Python's built-in classes.
\<close>

datatype error =
    TypeError
  | ValueError
  | IndexError
  | ZeroDivisionError
  | OverflowError
  | ConfigurationError string

text \<open>
  The calls to the pin library and to the clock, in the order they are made.
  \<open>Sleep v\<close> stands for \<^verbatim>\<open>time.sleep(1 / v)\<close>: the delay is a float, so the event
  carries the divisor \<open>v\<close>, the instantaneous speed in steps per second.
\<close>

datatype event =
    WiringPiSetup
  | PinMode pyval int
  | DigitalWrite pyval int
  | Sleep int

text \<open>
  A number that is a Python \<^verbatim>\<open>int\<close> or a Python \<^verbatim>\<open>float\<close>: the ramp length of
  \<^verbatim>\<open>move\<close> is the one or the other. A float is given by the rational it stands for.
\<close>

datatype number = IntN int | FloatN rat

section \<open>The built-ins the driver relies on\<close>

subsection \<open>Strings to integers\<close>

text \<open>
  \<^verbatim>\<open>int(x)\<close> on a string, whose characters are code points below 256. Surrounding
  whitespace is stripped: the ASCII characters 9 to 13 and 32, and the two spaces 133
  and 160 beyond ASCII. One sign is allowed, and the digits may be grouped by single
  underscores. More than 4300 digits are refused, as CPython does by default.
\<close>

definition is_space :: "char \<Rightarrow> bool" where
  "is_space c = (of_char c \<in> set [9, 10, 11, 12, 13, 32, 133, 160 :: nat])"

definition is_digit :: "char \<Rightarrow> bool" where
  "is_digit c = (48 \<le> (of_char c :: nat) \<and> (of_char c :: nat) \<le> 57)"

definition digit_val :: "char \<Rightarrow> int" where
  "digit_val c = int (of_char c) - 48"

definition strip :: "string \<Rightarrow> string" where
  "strip s = rev (dropWhile is_space (rev (dropWhile is_space s)))"

fun parse_digits :: "string \<Rightarrow> int \<Rightarrow> int option" where
  "parse_digits [] acc = Some acc"
| "parse_digits (c # cs) acc =
     (if is_digit c then parse_digits cs (10 * acc + digit_val c)
      else if c = CHR ''_'' then
        (case cs of
           [] \<Rightarrow> None
         | d # _ \<Rightarrow> if is_digit d then parse_digits cs acc else None)
      else None)"

definition int_of_string :: "string \<Rightarrow> int option" where
  "int_of_string s =
     (let t = strip s;
          neg = (case t of [] \<Rightarrow> False | c # _ \<Rightarrow> c = CHR ''-'');
          body = (case t of [] \<Rightarrow> []
                  | c # r \<Rightarrow> if c = CHR ''-'' \<or> c = CHR ''+'' then r else t)
      in case body of
           [] \<Rightarrow> None
         | c # _ \<Rightarrow>
             if is_digit c \<and> length (filter is_digit body) \<le> 4300
             then map_option (\<lambda>v. if neg then - v else v) (parse_digits body 0)
             else None)"

definition py_int :: "pyval \<Rightarrow> error + int" where
  "py_int x =
     (case x of
        PNone \<Rightarrow> Inl TypeError
      | PInt i \<Rightarrow> Inr i
      | PStr s \<Rightarrow> (case int_of_string s of None \<Rightarrow> Inl ValueError | Some i \<Rightarrow> Inr i))"

text \<open>\<^verbatim>\<open>str(x)\<close>, as \<^verbatim>\<open>"{}".format(x)\<close> prints a value.\<close>

fun str_nat :: "nat \<Rightarrow> string" where
  "str_nat n =
     (if n < 10 then [char_of (48 + n)]
      else str_nat (n div 10) @ [char_of (48 + n mod 10)])"

definition str_int :: "int \<Rightarrow> string" where
  "str_int i = (if i < 0 then CHR ''-'' # str_nat (nat (- i)) else str_nat (nat i))"

definition py_str :: "pyval \<Rightarrow> string" where
  "py_str x = (case x of PNone \<Rightarrow> ''None'' | PInt i \<Rightarrow> str_int i | PStr s \<Rightarrow> s)"

subsection \<open>Floats\<close>

text \<open>
  The driver is Python 3 code: \<^verbatim>\<open>a / b\<close> on integers is true division, and its result
  is the double nearest to the quotient, ties going to the even mantissa. A double
  has 53 significant bits down to the exponent -1022, and the fixed spacing
  \<open>2 powi - 1074\<close> below that.
\<close>

text \<open>The number of binary digits of a positive integer.\<close>

function bit_length :: "int \<Rightarrow> nat" where
  "bit_length n = (if n \<le> 0 then 0 else Suc (bit_length (n div 2)))"
  by pat_completeness auto
termination
  by (relation "measure nat") auto

declare bit_length.simps [simp del]

text \<open>For \<open>q > 0\<close>, the exponent \<open>e\<close> with \<open>2 powi e \<le> q < 2 powi (e + 1)\<close>.\<close>

definition binary_exponent :: "rat \<Rightarrow> int" where
  "binary_exponent q =
     (let (a, b) = quotient_of q;
          d = int (bit_length a) - int (bit_length b)
      in if 2 powi d \<le> q then d else d - 1)"

definition double_exponent :: "rat \<Rightarrow> int" where
  "double_exponent q = max (binary_exponent q) (- 1022)"

definition round_half_even :: "rat \<Rightarrow> int" where
  "round_half_even m =
     (let fl = \<lfloor>m\<rfloor>; r = m - of_int fl
      in if r < 1 / 2 then fl
         else if 1 / 2 < r then fl + 1
         else if even fl then fl else fl + 1)"

definition round_double :: "rat \<Rightarrow> rat" where
  "round_double q =
     (if q = 0 then 0
      else let u = 2 powi (double_exponent \<bar>q\<bar> - 52)
           in sgn q * of_int (round_half_even (\<bar>q\<bar> / u)) * u)"

text \<open>
  The largest double is \<open>2 ^ 1024 - 2 ^ 971\<close>; a quotient rounds beyond it from
  \<open>2 ^ 1024 - 2 ^ 970\<close> on, and Python raises \<open>OverflowError\<close>.
\<close>

definition double_overflow :: "rat \<Rightarrow> bool" where
  "double_overflow q = (2 ^ 1024 - 2 ^ 970 \<le> \<bar>q\<bar>)"

text \<open>\<^verbatim>\<open>a / b\<close> on two integers.\<close>

definition py_truediv :: "int \<Rightarrow> int \<Rightarrow> error + rat" where
  "py_truediv a b =
     (if b = 0 then Inl ZeroDivisionError
      else if double_overflow (of_int a / of_int b) then Inl OverflowError
      else Inr (round_double (of_int a / of_int b)))"

text \<open>The conversion of an integer to a float, as mixed arithmetic makes it.\<close>

definition py_float :: "int \<Rightarrow> error + rat" where
  "py_float a =
     (if double_overflow (of_int a) then Inl OverflowError
      else Inr (round_double (of_int a)))"

text \<open>\<^verbatim>\<open>int(x)\<close> on a float truncates towards zero.\<close>

definition py_trunc :: "rat \<Rightarrow> int" where
  "py_trunc q = (if 0 \<le> q then \<lfloor>q\<rfloor> else \<lceil>q\<rceil>)"

definition num_val :: "number \<Rightarrow> rat" where
  "num_val x = (case x of IntN a \<Rightarrow> of_int a | FloatN q \<Rightarrow> q)"

definition int_of_number :: "number \<Rightarrow> int" where
  "int_of_number x = (case x of IntN a \<Rightarrow> a | FloatN q \<Rightarrow> py_trunc q)"

text \<open>
  \<^verbatim>\<open>time.sleep(1 / v)\<close> raises \<open>ValueError\<close> for a negative delay. The delay of a
  negative \<open>v\<close> is negative unless it rounds to zero, which it does from
  \<open>2 ^ 1075\<close> on.
\<close>

definition sleep_raises :: "int \<Rightarrow> bool" where
  "sleep_raises v = (v < 0 \<and> - (2 ^ 1075) < v)"

subsection \<open>Lists\<close>

text \<open>\<^verbatim>\<open>xs[i]\<close>: a negative index counts from the end, an index out of range raises.\<close>

definition py_getitem :: "'a list \<Rightarrow> int \<Rightarrow> error + 'a" where
  "py_getitem xs i =
     (let n = int (length xs)
      in if 0 \<le> i \<and> i < n then Inr (xs ! nat i)
         else if - n \<le> i \<and> i < 0 then Inr (xs ! nat (n + i))
         else Inl IndexError)"

section \<open>The Stepper object\<close>

record stepper =
  inp :: "int list"
  num_step :: int
  half :: "int list list"
  actspeed :: int
  direction :: "int option"
  actual_speed :: int
  acceleration_factor :: int
  MIN_SPEED :: int
  MAX_SPEED :: int
  debug :: bool
  debug_filename :: string
  absolute_time :: int

text \<open>The half-step table assigned to \<^verbatim>\<open>self.half\<close> by the constructor.\<close>

definition half_table :: "int list list" where
  "half_table =
     [[1, 0, 0, 1],
      [1, 0, 0, 0],
      [1, 1, 0, 0],
      [0, 1, 0, 0],
      [0, 1, 1, 0],
      [0, 0, 1, 0],
      [0, 0, 1, 1],
      [0, 0, 0, 1]]"

subsection \<open>check_pins\<close>

text \<open>
  One \<^verbatim>\<open>try: int(i) except ValueError: raise ConfigurationError(...)\<close> block: only
  \<open>ValueError\<close> is caught, any other exception of \<^verbatim>\<open>int\<close> propagates.
\<close>

definition try_int_pin :: "string \<Rightarrow> pyval \<Rightarrow> error + int" where
  "try_int_pin ordinal i =
     (case py_int i of
        Inl e \<Rightarrow>
          if e = ValueError
          then Inl (ConfigurationError
                 (''The '' @ ordinal @ '' pin ID is not an integer: '' @ py_str i))
          else Inl e
      | Inr v \<Rightarrow> Inr v)"

text \<open>The loop \<^verbatim>\<open>for i in range(len(input_pins))\<close>, from index \<open>i\<close> on.\<close>

primrec pins_in_range :: "int list \<Rightarrow> nat \<Rightarrow> error + unit" where
  "pins_in_range [] i = Inr ()"
| "pins_in_range (p # ps) i =
     (if \<not> (0 \<le> p \<and> p < 17)
      then Inl (ConfigurationError
             (''The pin number '' @ str_nat (i + 1)
              @ '' does not exist. Valid pin numbers are from 0 to 16.''))
      else pins_in_range ps (i + 1))"

definition check_pins :: "pyval \<Rightarrow> pyval \<Rightarrow> pyval \<Rightarrow> pyval \<Rightarrow> error + int list" where
  "check_pins i1 i2 i3 i4 =
     (case try_int_pin ''first'' i1 of Inl e \<Rightarrow> Inl e | Inr p1 \<Rightarrow>
     (case try_int_pin ''second'' i2 of Inl e \<Rightarrow> Inl e | Inr p2 \<Rightarrow>
     (case try_int_pin ''third'' i3 of Inl e \<Rightarrow> Inl e | Inr p3 \<Rightarrow>
     (case try_int_pin ''fourth'' i4 of Inl e \<Rightarrow> Inl e | Inr p4 \<Rightarrow>
        (let input_pins = [p1, p2, p3, p4]
         in (case pins_in_range input_pins 0 of
               Inl e \<Rightarrow> Inl e
             | Inr u \<Rightarrow>
                 if length (remdups input_pins) \<noteq> 4
                 then Inl (ConfigurationError
                   ''There are two different pins with the same number. Pins must have unique numbers'')
                 else Inr input_pins))))))"

subsection \<open>The constructor\<close>

text \<open>
  \<^verbatim>\<open>Stepper(i1, i2, i3, i4)\<close> with \<^verbatim>\<open>debug=False\<close>. The result is the list of library calls
  made, and the exception raised or the object built. The pin library is called with
  the arguments as given, not with their integer values.
\<close>

definition Stepper_init ::
  "pyval \<Rightarrow> pyval \<Rightarrow> pyval \<Rightarrow> pyval \<Rightarrow> event list \<times> (error + stepper)" where
  "Stepper_init i1 i2 i3 i4 =
     (case check_pins i1 i2 i3 i4 of
        Inl e \<Rightarrow> ([WiringPiSetup], Inl e)
      | Inr input_pins \<Rightarrow>
          ([WiringPiSetup,
            PinMode i1 1, PinMode i2 1, PinMode i3 1, PinMode i4 1,
            DigitalWrite i1 0, DigitalWrite i2 0, DigitalWrite i3 0, DigitalWrite i4 0],
           Inr \<lparr> inp = input_pins, num_step = 0, half = half_table, actspeed = 0,
                 direction = None, actual_speed = 0, acceleration_factor = 1,
                 MIN_SPEED = 10, MAX_SPEED = 500, debug = False, debug_filename = [],
                 absolute_time = 0 \<rparr>))"

subsection \<open>run_one_step\<close>

text \<open>
  A method that raises leaves the object as it is at that point, and the calls made
  so far stay made: an exception is returned with the object and the trace, as a
  return is.
\<close>

text \<open>The loop \<^verbatim>\<open>for k in range(0, 4)\<close> over the remaining values of \<open>k\<close>.\<close>

primrec write_pins ::
  "stepper \<Rightarrow> int \<Rightarrow> nat list \<Rightarrow> (error \<times> event list) + event list" where
  "write_pins self phase [] = Inr []"
| "write_pins self phase (k # ks) =
     (case py_getitem (inp self) (int k) of Inl e \<Rightarrow> Inl (e, []) | Inr pin \<Rightarrow>
     (case py_getitem (half self) phase of Inl e \<Rightarrow> Inl (e, []) | Inr row \<Rightarrow>
     (case py_getitem row (int k) of Inl e \<Rightarrow> Inl (e, []) | Inr level \<Rightarrow>
     (case write_pins self phase ks of
        Inl (e, evs) \<Rightarrow> Inl (e, DigitalWrite (PInt pin) level # evs)
      | Inr evs \<Rightarrow> Inr (DigitalWrite (PInt pin) level # evs)))))"

definition run_one_step :: "stepper \<Rightarrow> (error \<times> event list) + event list" where
  "run_one_step self =
     (case direction self of
        None \<Rightarrow> Inl (TypeError, [])
      | Some d \<Rightarrow>
          (let phase = (num_step self mod 8) * d
           in write_pins self phase [0, 1, 2, 3]))"

subsection \<open>The ramp and the cruise\<close>

text \<open>
  The \<^verbatim>\<open>while count <= steps\<close> loop of \<^verbatim>\<open>_linear_acceleration\<close>; \<open>steps\<close> is the value
  of an integer or of a float. The delay is computed first (division by zero raises),
  then the pins are written, speed and counter are updated, and the sleep is made.
\<close>

function linear_acceleration_loop ::
  "rat \<Rightarrow> int \<Rightarrow> int \<Rightarrow> stepper
   \<Rightarrow> (error \<times> stepper \<times> event list) + (stepper \<times> event list)" where
  "linear_acceleration_loop steps acc_or_dec count self =
     (if of_int count \<le> steps then
        (if actual_speed self = 0 then Inl (ZeroDivisionError, self, [])
         else
           (case run_one_step self of
              Inl (e, ws) \<Rightarrow> Inl (e, self, ws)
            | Inr ws \<Rightarrow>
               (let self1 = self\<lparr> actual_speed :=
                              actual_speed self + 1 * acceleration_factor self * acc_or_dec \<rparr>
                in (case direction self of
                      None \<Rightarrow> Inl (TypeError, self1, ws)
                    | Some d \<Rightarrow>
                       (let self2 = self1\<lparr> num_step := num_step self + 1 * d \<rparr>
                        in if sleep_raises (actual_speed self)
                           then Inl (ValueError, self2, ws)
                           else
                             (case linear_acceleration_loop steps acc_or_dec (count + 1) self2 of
                                Inl (e, self', evs) \<Rightarrow>
                                  Inl (e, self', ws @ Sleep (actual_speed self) # evs)
                              | Inr (self', evs) \<Rightarrow>
                                  Inr (self', ws @ Sleep (actual_speed self) # evs)))))))
      else Inr (self, []))"
  by pat_completeness auto
termination
  by (relation "measure (\<lambda>(steps, acc_or_dec, count, self). nat (\<lfloor>steps\<rfloor> + 1 - count))")
     (auto simp: le_floor_iff)

declare linear_acceleration_loop.simps [simp del]

definition linear_acceleration ::
  "stepper \<Rightarrow> number \<Rightarrow> bool
   \<Rightarrow> (error \<times> stepper \<times> event list) + (stepper \<times> event list)" where
  "linear_acceleration self steps acc_is_positive =
     (let self1 = (if acc_is_positive
                   then self\<lparr> actual_speed := 1 * acceleration_factor self \<rparr> else self);
          acc_or_dec = (if \<not> acc_is_positive then - 1 else 1)
      in case linear_acceleration_loop (num_val steps) acc_or_dec 1 self1 of
           Inl (e, self2, evs) \<Rightarrow> Inl (e, self2, evs)
         | Inr (self2, evs) \<Rightarrow>
             Inr (if \<not> acc_is_positive then self2\<lparr> actual_speed := 0 \<rparr> else self2, evs))"

text \<open>
  The loop \<^verbatim>\<open>for s in range(int(steps))\<close> of \<^verbatim>\<open>_move_with_constant_speed\<close>, by the
  number of iterations left; \<open>t\<close> is the divisor of the delay computed before the loop.
\<close>

primrec constant_speed_loop ::
  "nat \<Rightarrow> int \<Rightarrow> stepper \<Rightarrow> (error \<times> stepper \<times> event list) + (stepper \<times> event list)" where
  "constant_speed_loop 0 t self = Inr (self, [])"
| "constant_speed_loop (Suc n) t self =
     (case run_one_step self of
        Inl (e, ws) \<Rightarrow> Inl (e, self, ws)
      | Inr ws \<Rightarrow>
         (case direction self of
            None \<Rightarrow> Inl (TypeError, self, ws)
          | Some d \<Rightarrow>
             (let self1 = self\<lparr> num_step := num_step self + 1 * d \<rparr>
              in if sleep_raises t then Inl (ValueError, self1, ws)
                 else
                   (case constant_speed_loop n t self1 of
                      Inl (e, self', evs) \<Rightarrow> Inl (e, self', ws @ Sleep t # evs)
                    | Inr (self', evs) \<Rightarrow> Inr (self', ws @ Sleep t # evs)))))"

definition move_with_constant_speed ::
  "stepper \<Rightarrow> number \<Rightarrow> int
   \<Rightarrow> (error \<times> stepper \<times> event list) + (stepper \<times> event list)" where
  "move_with_constant_speed self steps speed =
     (let self1 = self\<lparr> actual_speed := speed \<rparr>
      in if actual_speed self1 = 0 then Inl (ZeroDivisionError, self1, [])
         else constant_speed_loop (nat (int_of_number steps)) (actual_speed self1) self1)"

subsection \<open>move\<close>

text \<open>Lines 134 to 138: the sign of the speed selects the direction.\<close>

definition set_direction :: "stepper \<Rightarrow> int \<Rightarrow> stepper" where
  "set_direction self speed =
     (let self1 = (if speed \<ge> 0 then self\<lparr> direction := Some 1 \<rparr> else self)
      in if speed < 0 then self1\<lparr> direction := Some (- 1) \<rparr> else self1)"

text \<open>Lines 141 to 144: the hardware's speed limits.\<close>

definition speed_limits :: "stepper \<Rightarrow> int \<Rightarrow> int" where
  "speed_limits self speed =
     (let speed1 = (if speed > MAX_SPEED self then MAX_SPEED self else speed)
      in if speed1 < MIN_SPEED self then MIN_SPEED self else speed1)"

text \<open>
  Lines 147 to 151: the length of each ramp, for a speed already limited. It is the
  integer \<^verbatim>\<open>int(speed / acceleration_factor)\<close>, or the float \<^verbatim>\<open>step_num / 2\<close> when
  that is less. Either division may raise.
\<close>

definition acceleration_steps :: "stepper \<Rightarrow> int \<Rightarrow> int \<Rightarrow> error + number" where
  "acceleration_steps self step_num speed =
     (case py_truediv speed (acceleration_factor self) of
        Inl e \<Rightarrow> Inl e
      | Inr q \<Rightarrow>
         (case py_truediv step_num 2 of
            Inl e \<Rightarrow> Inl e
          | Inr h \<Rightarrow>
              Inr (if of_int (py_trunc q) > h then FloatN h else IntN (py_trunc q))))"

text \<open>
  Line 152, \<^verbatim>\<open>step_num - (2 * acceleration_steps)\<close>: integer arithmetic for an integer
  ramp length. For a float the step count is converted to a float, which may raise,
  and the difference is rounded; doubling a float is exact. (The double of the half
  of a step count is finite whenever the step count converts.)
\<close>

definition constant_speed_steps :: "int \<Rightarrow> number \<Rightarrow> error + number" where
  "constant_speed_steps step_num acc =
     (case acc of
        IntN a \<Rightarrow> Inr (IntN (step_num - 2 * a))
      | FloatN h \<Rightarrow>
         (case py_float step_num of
            Inl e \<Rightarrow> Inl e
          | Inr x \<Rightarrow> Inr (FloatN (round_double (x - 2 * h)))))"

text \<open>Lines 156 and 157: the speed of the cruise, after the ramp up left \<open>self\<close>.\<close>

definition cruise_speed :: "int \<Rightarrow> stepper \<Rightarrow> int" where
  "cruise_speed speed self = (if speed > actual_speed self then actual_speed self else speed)"

text \<open>
  The body of \<^verbatim>\<open>move\<close> from line 134 on, for arguments that passed validation. It
  returns \<^verbatim>\<open>None\<close>.
\<close>

definition move_valid ::
  "stepper \<Rightarrow> int \<Rightarrow> int
   \<Rightarrow> (error \<times> stepper \<times> event list) + (string option \<times> stepper \<times> event list)" where
  "move_valid self step_num speed0 =
     (let self0 = set_direction self speed0;
          speed = speed_limits self0 (if speed0 < 0 then abs speed0 else speed0)
      in (case acceleration_steps self0 step_num speed of
            Inl e \<Rightarrow> Inl (e, self0, [])
          | Inr acc \<Rightarrow>
      (case constant_speed_steps step_num acc of
            Inl e \<Rightarrow> Inl (e, self0, [])
          | Inr const \<Rightarrow>
      (case linear_acceleration self0 acc True of
            Inl (e, self1, ev1) \<Rightarrow> Inl (e, self1, ev1)
          | Inr (self1, ev1) \<Rightarrow>
      (case move_with_constant_speed self1 const (cruise_speed speed self1) of
            Inl (e, self2, ev2) \<Rightarrow> Inl (e, self2, ev1 @ ev2)
          | Inr (self2, ev2) \<Rightarrow>
      (case linear_acceleration self2 acc False of
            Inl (e, self3, ev3) \<Rightarrow> Inl (e, self3, ev1 @ ev2 @ ev3)
          | Inr (self3, ev3) \<Rightarrow> Inr (None, self3, ev1 @ ev2 @ ev3)))))))"

text \<open>
  \<^verbatim>\<open>move(step_num, speed)\<close>. A validation failure returns its message and touches
  nothing; \<^verbatim>\<open>except (TypeError, ValueError)\<close> catches both exceptions of \<^verbatim>\<open>int\<close>.
\<close>

definition move ::
  "stepper \<Rightarrow> pyval \<Rightarrow> pyval
   \<Rightarrow> (error \<times> stepper \<times> event list) + (string option \<times> stepper \<times> event list)" where
  "move self step_num speed =
     (if step_num = PNone
      then Inr (Some ''Invalid input. You should choose a value for *step_num*'', self, [])
      else if speed = PNone
      then Inr (Some
        ''Invalid input. You should choose a value for *speed*. A possible value could be 250 step/s'',
        self, [])
      else
        (case py_int step_num of
           Inl e \<Rightarrow>
             if e = TypeError \<or> e = ValueError
             then Inr (Some ''Invalid input. step_num has to be an integer'', self, [])
             else Inl (e, self, [])
         | Inr n \<Rightarrow>
             if n < 0
             then Inr (Some ''Invalid input. step_num has to be positive'', self, [])
             else
               (case py_int speed of
                  Inl e \<Rightarrow>
                    if e = TypeError \<or> e = ValueError
                    then Inr (Some ''Invalid input. speed has to be an integer'', self, [])
                    else Inl (e, self, [])
                | Inr v \<Rightarrow> move_valid self n v)))"

subsection \<open>Reading a trace\<close>

text \<open>The speeds of the sleeps of a trace, in order: one for each step made.\<close>

fun sleeps :: "event list \<Rightarrow> int list" where
  "sleeps [] = []"
| "sleeps (Sleep v # evs) = v # sleeps evs"
| "sleeps (_ # evs) = sleeps evs"

text \<open>The object that \<^verbatim>\<open>Stepper(7, 0, 2, 3)\<close> builds.\<close>

definition motor1 :: stepper where
  "motor1 =
     \<lparr> inp = [7, 0, 2, 3], num_step = 0, half = half_table, actspeed = 0,
       direction = None, actual_speed = 0, acceleration_factor = 1,
       MIN_SPEED = 10, MAX_SPEED = 500, debug = False, debug_filename = [],
       absolute_time = 0 \<rparr>"

text \<open>What one call of \<^verbatim>\<open>run_one_step\<close> writes when the table row is \<open>row\<close>.\<close>

definition step_writes :: "stepper \<Rightarrow> int list \<Rightarrow> event list" where
  "step_writes self row =
     map (\<lambda>k. DigitalWrite (PInt (inp self ! k)) (row ! k)) [0, 1, 2, 3]"

text \<open>The highest speed at which a step of the trace was made (0 for no step).\<close>

definition peak_speed :: "event list \<Rightarrow> int" where
  "peak_speed evs = fold max (sleeps evs) 0"

text \<open>
  The state the constructor leaves the wiring in: four pins and the half-step table.
\<close>

definition wired :: "stepper \<Rightarrow> bool" where
  "wired self = (length (inp self) = 4 \<and> half self = half_table)"

text \<open>
  The hardware constants are positive and below \<open>2 ^ 52\<close>, as the values 1, 10 and
  500 that the constructor sets are. Up to there the ramp length
  \<^verbatim>\<open>int(speed / acceleration_factor)\<close> is the integer quotient, and a move whose ramps
  are cut has a step count whose half is a double.
\<close>

definition limits_ok :: "stepper \<Rightarrow> bool" where
  "limits_ok self =
     (1 \<le> acceleration_factor self \<and> acceleration_factor self < 2 ^ 52
      \<and> 1 \<le> MIN_SPEED self \<and> MIN_SPEED self < 2 ^ 52 \<and> MAX_SPEED self < 2 ^ 52)"

text \<open>
  The plan of a move, read off the definitions above: the speed after the sign and the
  limits are applied, whether the test of line 150 is reached and holds, and how
  often the loops of the ramps and of the cruise run (not at all when the lengths are
  not computed).
\<close>

definition target_speed :: "stepper \<Rightarrow> int \<Rightarrow> int" where
  "target_speed self speed0 = speed_limits self (if speed0 < 0 then abs speed0 else speed0)"

definition short_move :: "stepper \<Rightarrow> int \<Rightarrow> int \<Rightarrow> bool" where
  "short_move self step_num speed =
     (case py_truediv speed (acceleration_factor self) of
        Inl e \<Rightarrow> False
      | Inr q \<Rightarrow>
         (case py_truediv step_num 2 of
            Inl e \<Rightarrow> False
          | Inr h \<Rightarrow> of_int (py_trunc q) > h))"

definition ramp_count :: "stepper \<Rightarrow> int \<Rightarrow> int \<Rightarrow> nat" where
  "ramp_count self step_num speed =
     (case acceleration_steps self step_num speed of
        Inl e \<Rightarrow> 0
      | Inr acc \<Rightarrow> nat \<lfloor>num_val acc\<rfloor>)"

definition cruise_count :: "stepper \<Rightarrow> int \<Rightarrow> int \<Rightarrow> nat" where
  "cruise_count self step_num speed =
     (case acceleration_steps self step_num speed of
        Inl e \<Rightarrow> 0
      | Inr acc \<Rightarrow>
         (case constant_speed_steps step_num acc of
            Inl e \<Rightarrow> 0
          | Inr const \<Rightarrow> nat (int_of_number const)))"

text \<open>
  The speed that \<^verbatim>\<open>move\<close> hands to \<^verbatim>\<open>_move_with_constant_speed\<close> on line 158: the
  limited speed, lowered to the speed the ramp up has left in \<^verbatim>\<open>self.actual_speed\<close>.
\<close>

definition cruise_speed_of_move :: "stepper \<Rightarrow> int \<Rightarrow> int \<Rightarrow> int option" where
  "cruise_speed_of_move self step_num speed0 =
     (let self0 = set_direction self speed0;
          speed = target_speed self speed0
      in (case acceleration_steps self0 step_num speed of
            Inl e \<Rightarrow> None
          | Inr acc \<Rightarrow>
      (case constant_speed_steps step_num acc of
            Inl e \<Rightarrow> None
          | Inr const \<Rightarrow>
      (case linear_acceleration self0 acc True of
            Inl r \<Rightarrow> None
          | Inr (self1, ev1) \<Rightarrow> Some (cruise_speed speed self1)))))"

text \<open>
  The object and the trace that a call leaves when it returns, and the object that
  it leaves in either case.
\<close>

definition result_state ::
  "(error \<times> stepper \<times> event list) + (string option \<times> stepper \<times> event list)
   \<Rightarrow> stepper option" where
  "result_state r = (case r of Inl e \<Rightarrow> None | Inr (msg, self, evs) \<Rightarrow> Some self)"

definition result_trace ::
  "(error \<times> stepper \<times> event list) + (string option \<times> stepper \<times> event list)
   \<Rightarrow> event list option" where
  "result_trace r = (case r of Inl e \<Rightarrow> None | Inr (msg, self, evs) \<Rightarrow> Some evs)"

definition final_state ::
  "(error \<times> stepper \<times> event list) + (string option \<times> stepper \<times> event list)
   \<Rightarrow> stepper" where
  "final_state r = (case r of Inl (e, self, evs) \<Rightarrow> self | Inr (msg, self, evs) \<Rightarrow> self)"

text \<open>
  What \<^verbatim>\<open>move\<close> never assigns: every field but the step counter, the direction and
  the instantaneous speed.
\<close>

definition unchanged :: "stepper \<Rightarrow> stepper \<Rightarrow> bool" where
  "unchanged a b =
     (inp b = inp a \<and> half b = half a \<and> actspeed b = actspeed a
      \<and> acceleration_factor b = acceleration_factor a
      \<and> MIN_SPEED b = MIN_SPEED a \<and> MAX_SPEED b = MAX_SPEED a
      \<and> debug b = debug a \<and> debug_filename b = debug_filename a
      \<and> absolute_time b = absolute_time a)"

text \<open>The hardware constants as the constructor sets them.\<close>

definition default_limits :: "stepper \<Rightarrow> bool" where
  "default_limits self =
     (acceleration_factor self = 1 \<and> MIN_SPEED self = 10 \<and> MAX_SPEED self = 500)"

section \<open>Doubles\<close>

text \<open>
  The exponent found by counting bits is the right one, integers and halves of
  integers below \<open>2 ^ 53\<close> are doubles, and the ramp length
  \<^verbatim>\<open>int(speed / acceleration_factor)\<close> is the integer quotient below \<open>2 ^ 53\<close>.
\<close>

lemma bit_length_bounds:
  "0 < n \<Longrightarrow> 2 ^ (bit_length n - 1) \<le> n \<and> n < 2 ^ bit_length n"
proof (induction n rule: bit_length.induct)
  case (1 n)
  from "1.prems" have n0: "\<not> n \<le> 0" by simp
  have bl: "bit_length n = Suc (bit_length (n div 2))"
    using n0 by (subst bit_length.simps) simp
  show ?case
  proof (cases "n div 2 = 0")
    case True
    with "1.prems" have "n = 1" by presburger
    then show ?thesis by (simp add: bit_length.simps)
  next
    case False
    with "1.prems" have pos: "0 < n div 2" by presburger
    from "1.IH"[OF n0 pos] have lo: "2 ^ (bit_length (n div 2) - 1) \<le> n div 2"
      and hi: "n div 2 < 2 ^ bit_length (n div 2)" by simp_all
    have bp: "0 < bit_length (n div 2)"
      using pos by (subst bit_length.simps) simp
    then have "(2::int) ^ bit_length (n div 2) = 2 * 2 ^ (bit_length (n div 2) - 1)"
      by (cases "bit_length (n div 2)") simp_all
    with lo have "2 ^ bit_length (n div 2) \<le> 2 * (n div 2)" by simp
    also have "\<dots> \<le> n" by presburger
    finally have a: "2 ^ (bit_length n - 1) \<le> n" by (simp add: bl)
    from hi have "n div 2 + 1 \<le> 2 ^ bit_length (n div 2)" by simp
    then have "2 * (n div 2) + 2 \<le> 2 * 2 ^ bit_length (n div 2)" by simp
    moreover have "n < 2 * (n div 2) + 2" by presburger
    ultimately have b: "n < 2 ^ bit_length n" by (simp add: bl)
    from a b show ?thesis by simp
  qed
qed

lemma pow2_add: "(2::rat) powi (m + n) = 2 powi m * 2 powi n"
  by (simp add: power_int_add)

lemma pow2_nat: "(2::rat) powi int n = 2 ^ n"
  by simp

lemma pow2_diff_nat: "(2::rat) powi (int m - int n) = 2 ^ m / 2 ^ n"
  using power_int_diff[of "2::rat" "int m" "int n"] by simp

lemma binary_exponent_bounds:
  assumes "0 < q"
  shows "2 powi binary_exponent q \<le> q" and "q < 2 powi (binary_exponent q + 1)"
proof -
  obtain a b where ab: "quotient_of q = (a, b)" by (cases "quotient_of q")
  then have b: "0 < b" and q: "q = of_int a / of_int b"
    using quotient_of_denom_pos[OF ab] quotient_of_div[OF ab] by simp_all
  from assms q b have a: "0 < a" by (simp add: zero_less_divide_iff)
  define la lb where "la = bit_length a" and "lb = bit_length b"
  define d where "d = int la - int lb"
  define A B :: rat where "A = of_int a" and "B = of_int b"
  define PA PA' PB PB' :: rat
    where "PA = 2 ^ (la - 1)" and "PA' = 2 ^ la" and "PB = 2 ^ (lb - 1)" and "PB' = 2 ^ lb"
  have la: "0 < la" unfolding la_def using a by (subst bit_length.simps) simp
  have lb: "0 < lb" unfolding lb_def using b by (subst bit_length.simps) simp
  from bit_length_bounds[OF a] have "of_int (2 ^ (la - 1)) \<le> A" "A < of_int (2 ^ la)"
    unfolding A_def la_def by (simp_all only: of_int_le_iff of_int_less_iff)
  then have A: "PA \<le> A" "A < PA'" by (simp_all add: PA_def PA'_def)
  from bit_length_bounds[OF b] have "of_int (2 ^ (lb - 1)) \<le> B" "B < of_int (2 ^ lb)"
    unfolding B_def lb_def by (simp_all only: of_int_le_iff of_int_less_iff)
  then have B: "PB \<le> B" "B < PB'" by (simp_all add: PB_def PB'_def)
  have pos: "0 < PA" "0 < PB" "0 < B" "0 \<le> A"
    using a b by (simp_all add: PA_def PB_def A_def B_def)
  have lower: "PA / PB' < A / B"
    using pos(1) A(1) pos(3) B(2) by (rule frac_less2)
  have upper: "A / B < PA' / PB"
    using pos(4) A(2) pos(2) B(1) by (rule frac_less)
  have "d - 1 = int (la - 1) - int lb" using la by (simp add: d_def of_nat_diff)
  then have lo: "(2::rat) powi (d - 1) = PA / PB'"
    by (simp only: pow2_diff_nat PA_def PB'_def)
  have "d + 1 = int la - int (lb - 1)" using lb by (simp add: d_def of_nat_diff)
  then have hi: "(2::rat) powi (d + 1) = PA' / PB"
    by (simp only: pow2_diff_nat PA'_def PB_def)
  have qq: "q = A / B" by (simp add: q A_def B_def)
  have e: "binary_exponent q = (if 2 powi d \<le> q then d else d - 1)"
    by (simp add: binary_exponent_def ab d_def la_def lb_def)
  show "2 powi binary_exponent q \<le> q"
  proof (cases "2 powi d \<le> q")
    case True
    then show ?thesis by (simp only: e if_True)
  next
    case False
    have "2 powi (d - 1) < q" using lower by (simp only: lo qq)
    then show ?thesis using False by (simp only: e if_False)
  qed
  show "q < 2 powi (binary_exponent q + 1)"
  proof (cases "2 powi d \<le> q")
    case True
    have "q < 2 powi (d + 1)" using upper by (simp only: hi qq)
    then show ?thesis using True by (simp only: e if_True)
  next
    case False
    then have "q < 2 powi d" by simp
    then show ?thesis using False by (simp add: e)
  qed
qed

lemma round_half_even_ge_floor: "\<lfloor>m\<rfloor> \<le> round_half_even m"
  by (simp add: round_half_even_def Let_def)

lemma round_half_even_le: "of_int (round_half_even m) \<le> m + 1 / 2"
proof -
  have f: "of_int \<lfloor>m\<rfloor> \<le> m" by simp
  show ?thesis
  proof (cases "m - of_int \<lfloor>m\<rfloor> < 1 / 2")
    case True
    then have "round_half_even m = \<lfloor>m\<rfloor>" by (simp add: round_half_even_def Let_def)
    moreover have "of_int \<lfloor>m\<rfloor> \<le> m + 1 / 2" using of_int_floor_le[of m] by linarith
    ultimately show ?thesis by (simp only:)
  next
    case False
    then have "1 / 2 \<le> m - of_int \<lfloor>m\<rfloor>" by simp
    then have "of_int \<lfloor>m\<rfloor> + 1 \<le> m + 1 / 2" by simp
    moreover have "round_half_even m \<le> \<lfloor>m\<rfloor> + 1"
      by (simp add: round_half_even_def Let_def)
    then have "(of_int (round_half_even m) :: rat) \<le> of_int (\<lfloor>m\<rfloor> + 1)"
      by (simp only: of_int_le_iff)
    ultimately show ?thesis by simp
  qed
qed

lemma round_half_even_of_int: "round_half_even (of_int j) = j"
  by (simp add: round_half_even_def)

lemma round_half_even_ge_int: "of_int j \<le> m \<Longrightarrow> j \<le> round_half_even m"
  using round_half_even_ge_floor[of m] le_floor_iff[of j m] by linarith

lemma round_double_pos:
  "0 < q \<Longrightarrow> round_double q
     = of_int (round_half_even (q / 2 powi (double_exponent q - 52)))
       * 2 powi (double_exponent q - 52)"
  by (simp add: round_double_def Let_def)

lemma double_exponent_cases:
  "double_exponent q = binary_exponent q \<or> double_exponent q = - 1022"
  by (simp add: double_exponent_def max_def)

lemma pow2_pos: "(0::rat) < 2 powi e"
  by simp

lemma pow2_mono: "a \<le> b \<Longrightarrow> (2::rat) powi a \<le> 2 powi b"
  by (rule power_int_increasing) simp_all

lemma pow2_less_imp: "(2::rat) powi a < 2 powi b \<Longrightarrow> a < b"
proof (rule ccontr)
  assume "(2::rat) powi a < 2 powi b" and "\<not> a < b"
  then have "b \<le> a" by simp
  from pow2_mono[OF this] \<open>(2::rat) powi a < 2 powi b\<close> show False by simp
qed

lemma pow2_is_int: "0 \<le> e \<Longrightarrow> (2::rat) powi e = of_int (2 ^ nat e)"
  by (simp add: power_int_def)

text \<open>A dyadic number with at most 53 significant bits is a double.\<close>

lemma round_double_dyadic:
  assumes "0 < k" and "k < 2 ^ 53" and "- 1074 \<le> j"
  shows "round_double (of_int k * 2 powi j) = of_int k * 2 powi j"
proof -
  define q :: rat where "q = of_int k * 2 powi j"
  have q0: "0 < q" using assms(1) by (simp add: q_def)
  define e where "e = double_exponent q"
  define u :: rat where "u = 2 powi (e - 52)"
  have "2 powi binary_exponent q \<le> q" using binary_exponent_bounds(1)[OF q0] .
  also have "q < 2 powi 53 * 2 powi j"
  proof -
    have "(of_int k :: rat) < of_int (2 ^ 53)" using assms(2) by (simp only: of_int_less_iff)
    then have "(of_int k :: rat) < 2 powi 53" by simp
    then show ?thesis unfolding q_def by (rule mult_strict_right_mono) simp
  qed
  also have "\<dots> = 2 powi (53 + j)" by (simp only: pow2_add)
  finally have "binary_exponent q < 53 + j" by (rule pow2_less_imp)
  with assms(3) have le: "e - 52 \<le> j" by (simp add: e_def double_exponent_def)
  define i where "i = nat (j - (e - 52))"
  have "j = (e - 52) + int i" using le by (simp add: i_def)
  then have "(2::rat) powi j = u * 2 ^ i" by (simp only: pow2_add u_def pow2_nat)
  then have "q / u = of_int (k * 2 ^ i)" by (simp add: q_def u_def)
  then have "round_half_even (q / u) = k * 2 ^ i" by (simp only: round_half_even_of_int)
  then have "round_double q = of_int (k * 2 ^ i) * u"
    using round_double_pos[OF q0] by (simp only: e_def u_def)
  also have "\<dots> = q / u * u" using \<open>q / u = of_int (k * 2 ^ i)\<close> by (simp only:)
  also have "\<dots> = q" by (simp add: u_def)
  finally show ?thesis by (simp only: q_def)
qed

lemma round_double_of_int:
  assumes "0 \<le> n" and "n < 2 ^ 53"
  shows "round_double (of_int n) = of_int n"
proof (cases "n = 0")
  case True
  then show ?thesis by (simp add: round_double_def)
next
  case False
  with assms(1) have "0 < n" by simp
  from round_double_dyadic[OF this assms(2), of 0] show ?thesis by simp
qed

lemma round_double_half:
  assumes "0 \<le> n" and "n < 2 ^ 53"
  shows "round_double (of_int n / 2) = of_int n / 2"
proof (cases "n = 0")
  case True
  then show ?thesis by (simp add: round_double_def)
next
  case False
  with assms(1) have "0 < n" by simp
  from round_double_dyadic[OF this assms(2), of "- 1"] show ?thesis by simp
qed

lemma round_double_nonneg: "0 \<le> q \<Longrightarrow> 0 \<le> round_double q"
proof (cases "q = 0")
  case True
  then show ?thesis by (simp add: round_double_def)
next
  case False
  assume "0 \<le> q"
  with False have q0: "0 < q" by simp
  have "0 \<le> \<lfloor>q / 2 powi (double_exponent q - 52)\<rfloor>" using q0 by simp
  with round_half_even_ge_floor[of "q / 2 powi (double_exponent q - 52)"]
  have "0 \<le> round_half_even (q / 2 powi (double_exponent q - 52))" by linarith
  then show ?thesis by (simp add: round_double_pos[OF q0])
qed

text \<open>From \<open>2 ^ 52\<close> on, rounding stays at or above \<open>2 ^ 52\<close>.\<close>

lemma round_double_ge:
  assumes "2 ^ 52 \<le> q"
  shows "2 ^ 52 \<le> round_double q"
proof -
  from assms have q0: "0 < q" by (rule less_le_trans[rotated]) simp
  define e where "e = double_exponent q"
  define u :: rat where "u = 2 powi (e - 52)"
  have "(2::rat) powi 52 \<le> q" using assms by simp
  also have "q < 2 powi (binary_exponent q + 1)" using binary_exponent_bounds(2)[OF q0] .
  finally have "52 < binary_exponent q + 1" by (rule pow2_less_imp)
  then have b: "52 \<le> binary_exponent q" and e: "e = binary_exponent q"
    by (simp_all add: e_def double_exponent_def)
  have u1: "1 \<le> u"
  proof -
    have "(2::rat) powi 0 \<le> 2 powi (e - 52)" using b e by (intro pow2_mono) simp
    then show ?thesis by (simp add: u_def)
  qed
  have upos: "0 < u" by (simp add: u_def)
  have "(2::rat) powi (52 + (e - 52)) = 2 powi 52 * 2 powi (e - 52)" by (rule pow2_add)
  then have "(2::rat) powi e = 2 powi 52 * u" by (simp add: u_def)
  moreover have "2 powi e \<le> q" using binary_exponent_bounds(1)[OF q0] by (simp only: e)
  ultimately have "2 powi 52 * u \<le> q" by simp
  then have "(2::rat) powi 52 \<le> q / u" using upos by (simp add: pos_le_divide_eq)
  then have "(of_int (2 ^ 52) :: rat) \<le> q / u" by simp
  then have "2 ^ 52 \<le> round_half_even (q / u)" by (rule round_half_even_ge_int)
  then have "(of_int (2 ^ 52) :: rat) \<le> of_int (round_half_even (q / u))"
    by (simp only: of_int_le_iff)
  then have r: "(2 ^ 52 :: rat) \<le> of_int (round_half_even (q / u))" by simp
  have "(0::rat) \<le> 2 ^ 52" by simp
  then have "(0::rat) \<le> of_int (round_half_even (q / u))" using r by (rule order_trans)
  from mult_mono[OF r u1 this]
  have "(2 ^ 52 :: rat) * 1 \<le> of_int (round_half_even (q / u)) * u" by simp
  then show ?thesis using round_double_pos[OF q0] by (simp add: e_def u_def)
qed

text \<open>
  Below \<open>2 ^ 53\<close>, truncating the rounded quotient gives the integer quotient: the
  rounding never reaches the next integer.
\<close>

lemma trunc_round_div:
  assumes "0 \<le> S" and "1 \<le> f" and "S < 2 ^ 53" and "f < 2 ^ 53"
  shows "py_trunc (round_double (of_int S / of_int f)) = S div f"
proof (cases "S = 0")
  case True
  then show ?thesis by (simp add: round_double_def py_trunc_def)
next
  case False
  with assms(1) have S0: "0 < S" by simp
  define F :: rat where "F = of_int f"
  define q :: rat where "q = of_int S / F"
  define k where "k = S div f"
  define e where "e = double_exponent q"
  define u :: rat where "u = 2 powi (e - 52)"
  define R where "R = round_half_even (q / u)"
  have F1: "1 \<le> F" and Fpos: "0 < F" using assms(2) by (simp_all add: F_def)
  have q0: "0 < q" using S0 Fpos by (simp add: q_def)
  have upos: "0 < u" by (simp add: u_def)
  have rd: "round_double q = of_int R * u"
    using round_double_pos[OF q0] by (simp only: e_def u_def R_def)
  have Slt: "(of_int S :: rat) < 2 powi 53"
  proof -
    have "(of_int S :: rat) < of_int (2 ^ 53)" using assms(3) by (simp only: of_int_less_iff)
    then show ?thesis by simp
  qed
  have Flt: "F < 2 powi 53"
  proof -
    have "(of_int f :: rat) < of_int (2 ^ 53)" using assms(4) by (simp only: of_int_less_iff)
    then show ?thesis by (simp add: F_def)
  qed
  have qF: "q * F = of_int S" using Fpos by (simp add: q_def)
  have qle: "q \<le> of_int S"
  proof -
    have "q * 1 \<le> q * F" using F1 q0 by (intro mult_left_mono) simp_all
    then show ?thesis by (simp add: qF)
  qed
  have be: "2 powi binary_exponent q \<le> q" using binary_exponent_bounds(1)[OF q0] .
  \<comment> \<open>half a unit in the last place is less than \<open>1 / f\<close>\<close>
  have uF: "u * F < 2"
  proof (cases "e = binary_exponent q")
    case True
    have "(2::rat) powi (52 + (e - 52)) = 2 powi 52 * 2 powi (e - 52)" by (rule pow2_add)
    then have "(2::rat) powi e = 2 powi 52 * u" by (simp add: u_def)
    with be True have "2 powi 52 * u \<le> q" by simp
    then have "2 powi 52 * u * F \<le> q * F" using Fpos by (intro mult_right_mono) simp_all
    also have "\<dots> < 2 powi 53" using Slt by (simp only: qF)
    also have "\<dots> = 2 powi 52 * 2" by simp
    finally have "2 powi 52 * (u * F) < 2 powi 52 * 2" by (simp only: mult.assoc)
    then show ?thesis by (simp add: mult.commute)
  next
    case False
    with double_exponent_cases[of q] have "e = - 1022" by (simp add: e_def)
    then have "u = 2 powi (- 1074)" by (simp add: u_def)
    then have "u * F < 2 powi (- 1074) * 2 powi 53"
      using Flt by (simp only:) (intro mult_strict_left_mono, simp_all)
    also have "\<dots> = 2 powi (- 1074 + 53)" by (simp only: pow2_add)
    also have "\<dots> \<le> 2 powi 1" by (intro pow2_mono) simp
    finally show ?thesis by simp
  qed
  \<comment> \<open>the quotient stays \<open>1 / f\<close> below the next integer\<close>
  have qup: "q \<le> of_int k + 1 - 1 / F"
  proof -
    have "S mod f \<le> f - 1" using assms(2) pos_mod_bound[of f S] by simp
    moreover have "S = f * k + S mod f" by (simp add: k_def)
    ultimately have "S \<le> f * k + f - 1" by linarith
    then have "(of_int S :: rat) \<le> of_int (f * k + f - 1)" by (simp only: of_int_le_iff)
    then have "(of_int S :: rat) \<le> of_int k * F + F - 1" by (simp add: F_def algebra_simps)
    then have "q * F \<le> of_int k * F + F - 1" by (simp only: qF)
    then have "q * F \<le> (of_int k + 1 - 1 / F) * F" using Fpos by (simp add: algebra_simps)
    then show ?thesis using Fpos by (simp only: mult_le_cancel_right_pos)
  qed
  have upper: "round_double q < of_int k + 1"
  proof -
    have "of_int R \<le> q / u + 1 / 2" unfolding R_def by (rule round_half_even_le)
    then have "of_int R * u \<le> (q / u + 1 / 2) * u" using upos by (intro mult_right_mono) simp_all
    also have "\<dots> = q + u / 2" using upos by (simp add: algebra_simps)
    finally have a: "round_double q \<le> q + u / 2" by (simp only: rd)
    have "u / 2 * F < 1" using uF by simp
    then have "u / 2 < 1 / F" using Fpos by (simp add: pos_less_divide_eq)
    with a qup show ?thesis by linarith
  qed
  have lower: "of_int k \<le> round_double q"
  proof (cases "k = 0")
    case True
    with round_double_nonneg[of q] q0 show ?thesis by simp
  next
    case False
    have "0 \<le> k" using assms(1,2) by (simp add: k_def pos_imp_zdiv_nonneg_iff)
    with False have k1: "1 \<le> k" by simp
    have kq: "of_int k \<le> q"
    proof -
      have "0 \<le> S mod f" using assms(2) by simp
      moreover have "S = f * k + S mod f" by (simp add: k_def)
      ultimately have "f * k \<le> S" by linarith
      then have "(of_int (f * k) :: rat) \<le> of_int S" by (simp only: of_int_le_iff)
      then have "of_int k * F \<le> of_int S" by (simp add: F_def algebra_simps)
      then have "of_int k * F \<le> q * F" by (simp only: qF)
      then show ?thesis using Fpos by (simp only: mult_le_cancel_right_pos)
    qed
    have "(2::rat) powi 0 \<le> of_int k" using k1 by simp
    also have "\<dots> \<le> q" by (rule kq)
    also have "\<dots> < 2 powi (binary_exponent q + 1)" using binary_exponent_bounds(2)[OF q0] .
    finally have "0 < binary_exponent q + 1" by (rule pow2_less_imp)
    then have eb: "e = binary_exponent q" by (simp add: e_def double_exponent_def)
    have "2 powi e \<le> q" using be by (simp only: eb)
    also have "\<dots> < 2 powi 53" using qle Slt by simp
    finally have "e < 53" by (rule pow2_less_imp)
    define i where "i = nat (52 - e)"
    have z: "(e - 52) + int i = 0" using \<open>e < 53\<close> by (simp add: i_def)
    have "(2::rat) powi ((e - 52) + int i) = u * 2 powi int i" by (simp only: pow2_add u_def)
    then have ui: "u * 2 ^ i = 1" by (simp add: z)
    then have "of_int k / u = of_int k * 2 ^ i" using upos by (simp add: field_simps)
    moreover have "of_int k / u \<le> q / u" using kq upos by (simp add: divide_right_mono)
    ultimately have "of_int (k * 2 ^ i) \<le> q / u" by simp
    then have "k * 2 ^ i \<le> R" unfolding R_def by (rule round_half_even_ge_int)
    then have "(of_int (k * 2 ^ i) :: rat) \<le> of_int R" by (simp only: of_int_le_iff)
    then have "of_int (k * 2 ^ i) * u \<le> of_int R * u" using upos by (intro mult_right_mono) simp_all
    moreover have "of_int (k * 2 ^ i) * u = of_int k * (u * 2 ^ i)" by simp
    ultimately have "of_int k * (u * 2 ^ i) \<le> of_int R * u" by (simp only:)
    then have "of_int k \<le> of_int R * u" by (simp only: ui mult_1_right)
    then show ?thesis by (simp only: rd)
  qed
  have "0 \<le> round_double q" using round_double_nonneg[of q] q0 by simp
  moreover have "\<lfloor>round_double q\<rfloor> = k" using lower upper by (simp add: floor_unique)
  ultimately show ?thesis by (simp add: py_trunc_def q_def F_def k_def)
qed


section \<open>Indexing and single steps\<close>

lemma sleeps_append: "sleeps (xs @ ys) = sleeps xs @ sleeps ys"
  by (induction xs rule: sleeps.induct) simp_all

lemma sleeps_step_writes: "sleeps (step_writes self row) = []"
  by (simp add: step_writes_def)

lemma py_getitem_4:
  assumes "length xs = 4"
  shows "py_getitem xs 0 = Inr (xs ! 0)" "py_getitem xs 1 = Inr (xs ! 1)"
    "py_getitem xs 2 = Inr (xs ! 2)" "py_getitem xs 3 = Inr (xs ! 3)"
  using assms by (simp_all add: py_getitem_def)

lemma write_pins_row:
  assumes "length (inp self) = 4" and "py_getitem (half self) phase = Inr row"
    and "length row = 4"
  shows "write_pins self phase [0, 1, 2, 3] = Inr (step_writes self row)"
  using assms(2) py_getitem_4[OF assms(1)] py_getitem_4[OF assms(3)]
  by (simp add: step_writes_def)

lemma half_table_row_length: "i < 8 \<Longrightarrow> length (half_table ! i) = 4"
proof -
  assume "i < 8"
  then have "i \<in> {0, 1, 2, 3, 4, 5, 6, 7}" by auto
  then show ?thesis by (auto simp: half_table_def)
qed

text \<open>
  Python's wrap-around of a negative index agrees with the index normalised into
  \<open>0..7\<close>.
\<close>

lemma py_getitem_wrap:
  assumes "length xs = 8" and "d = 1 \<or> d = - 1"
  shows "py_getitem xs ((n mod 8) * d) = Inr (xs ! nat (((n * d) mod 8 + 8) mod 8))"
proof -
  define r where "r = n mod 8"
  have r: "0 \<le> r" "r < 8" by (simp_all add: r_def)
  from assms(2) show ?thesis
  proof
    assume d: "d = 1"
    have "((n * 1) mod 8 + 8) mod 8 = r" by (simp add: r_def)
    moreover have "py_getitem xs (r * 1) = Inr (xs ! nat r)"
      using r assms(1) by (simp add: py_getitem_def)
    ultimately show ?thesis unfolding d r_def by simp
  next
    assume d: "d = - 1"
    have "(n * (- 1)) mod 8 = (- r) mod 8" by (simp add: r_def mod_minus_eq)
    then have "((n * (- 1)) mod 8 + 8) mod 8 = (- r) mod 8" by simp
    also have "\<dots> = (if r = 0 then 0 else 8 - r)" using r by presburger
    finally have j: "((n * (- 1)) mod 8 + 8) mod 8 = (if r = 0 then 0 else 8 - r)" .
    have k: "py_getitem xs (r * (- 1)) = Inr (xs ! nat (if r = 0 then 0 else 8 - r))"
      using r assms(1) by (simp add: py_getitem_def)
    show ?thesis unfolding d j using k unfolding r_def .
  qed
qed

lemma half_table_phase:
  assumes "d = 1 \<or> d = - 1"
  shows "py_getitem half_table ((n mod 8) * d)
         = Inr (half_table ! nat (((n * d) mod 8 + 8) mod 8))"
  by (rule py_getitem_wrap[OF _ assms]) (simp add: half_table_def)

lemma phase_row_index: "nat (((n::int) mod 8 + 8) mod 8) < 8"
proof -
  have "0 \<le> (n mod 8 + 8) mod 8" "(n mod 8 + 8) mod 8 < 8" by simp_all
  then show ?thesis by linarith
qed

lemma run_one_step_wired:
  assumes "wired self" and "direction self = Some d" and "d = 1 \<or> d = - 1"
  shows "run_one_step self
         = Inr (step_writes self
                  (half_table ! nat (((num_step self * d) mod 8 + 8) mod 8)))"
proof -
  from assms(1) have len: "length (inp self) = 4" and tab: "half self = half_table"
    by (simp_all add: wired_def)
  have row: "py_getitem (half self) ((num_step self mod 8) * d)
             = Inr (half_table ! nat (((num_step self * d) mod 8 + 8) mod 8))"
    using half_table_phase[OF assms(3)] tab by simp
  have "length (half_table ! nat (((num_step self * d) mod 8 + 8) mod 8)) = 4"
    by (rule half_table_row_length) (rule phase_row_index)
  from write_pins_row[OF len row this] show ?thesis
    using assms(2) by (simp add: run_one_step_def)
qed

section \<open>The loops\<close>

lemma linear_acceleration_loop_run:
  assumes "wired self" and "direction self = Some d" and "d = 1 \<or> d = - 1"
    and "m = nat (\<lfloor>steps\<rfloor> + 1 - count)"
    and "\<And>j. j < m \<Longrightarrow> 0 < actual_speed self + int j * (acceleration_factor self * a)"
  shows "\<exists>evs. linear_acceleration_loop steps a count self
           = Inr (self\<lparr> actual_speed := actual_speed self + int m * (acceleration_factor self * a),
                        num_step := num_step self + int m * d \<rparr>, evs)
         \<and> sleeps evs
           = map (\<lambda>j. actual_speed self + int j * (acceleration_factor self * a)) [0..<m]"
  using assms
proof (induction m arbitrary: count self)
  case 0
  then have "\<lfloor>steps\<rfloor> < count" by simp
  then have "\<not> of_int count \<le> steps" using le_floor_iff[of count steps] by linarith
  then show ?case by (simp add: linear_acceleration_loop.simps)
next
  case (Suc m)
  let ?v = "actual_speed self" and ?f = "acceleration_factor self"
  let ?self' = "self\<lparr> actual_speed := ?v + 1 * ?f * a, num_step := num_step self + 1 * d \<rparr>"
  from Suc.prems(4) have c: "count \<le> \<lfloor>steps\<rfloor>" and m: "m = nat (\<lfloor>steps\<rfloor> + 1 - (count + 1))"
    by linarith+
  from c have le: "of_int count \<le> steps" using le_floor_iff[of count steps] by linarith
  from Suc.prems(5)[of 0] have pos: "0 < ?v" by simp
  have w: "wired ?self'" using Suc.prems(1) by (simp add: wired_def)
  have dir: "direction ?self' = Some d" using Suc.prems(2) by simp
  have p: "\<And>j. j < m \<Longrightarrow> 0 < actual_speed ?self' + int j * (acceleration_factor ?self' * a)"
  proof -
    fix j assume "j < m"
    then have "Suc j < Suc m" by simp
    from Suc.prems(5)[OF this] show "0 < actual_speed ?self' + int j * (acceleration_factor ?self' * a)"
      by (simp add: algebra_simps)
  qed
  from Suc.IH[OF w dir Suc.prems(3) m p] obtain evs where
    run: "linear_acceleration_loop steps a (count + 1) ?self'
           = Inr (?self'\<lparr> actual_speed := actual_speed ?self' + int m * (acceleration_factor ?self' * a),
                        num_step := num_step ?self' + int m * d \<rparr>, evs)"
    and sl: "sleeps evs
           = map (\<lambda>j. actual_speed ?self' + int j * (acceleration_factor ?self' * a)) [0..<m]"
    by blast
  obtain ws where ws: "run_one_step self = Inr ws" "sleeps ws = []"
    using run_one_step_wired[OF Suc.prems(1,2,3)] sleeps_step_writes by blast
  have st: "?self'\<lparr> actual_speed := actual_speed ?self' + int m * (acceleration_factor ?self' * a),
                        num_step := num_step ?self' + int m * d \<rparr>
        = self\<lparr> actual_speed := ?v + int (Suc m) * (?f * a),
                        num_step := num_step self + int (Suc m) * d \<rparr>"
    by (simp add: algebra_simps)
  have "linear_acceleration_loop steps a count self
        = Inr (self\<lparr> actual_speed := ?v + int (Suc m) * (?f * a),
                        num_step := num_step self + int (Suc m) * d \<rparr>, ws @ Sleep ?v # evs)"
    using le pos ws(1) Suc.prems(2) run[unfolded st]
    by (subst linear_acceleration_loop.simps) (simp add: sleep_raises_def)
  moreover have "sleeps (ws @ Sleep ?v # evs)
        = map (\<lambda>j. ?v + int j * (?f * a)) [0..<Suc m]"
  proof -
    have "map (\<lambda>j. ?v + int j * (?f * a)) [0..<Suc m]
          = ?v # map (\<lambda>j. ?v + int (Suc j) * (?f * a)) [0..<m]"
      by (simp add: upt_conv_Cons map_Suc_upt[symmetric] del: upt_Suc)
    also have "\<dots> = ?v # sleeps evs" by (simp add: sl algebra_simps)
    finally show ?thesis by (simp add: sleeps_append ws(2))
  qed
  ultimately show ?case by blast
qed

lemma constant_speed_loop_run:
  assumes "wired self" and "direction self = Some d" and "d = 1 \<or> d = - 1" and "0 \<le> t"
  shows "\<exists>evs. constant_speed_loop m t self
           = Inr (self\<lparr> num_step := num_step self + int m * d \<rparr>, evs)
         \<and> sleeps evs = replicate m t"
  using assms
proof (induction m arbitrary: self)
  case 0
  then show ?case by simp
next
  case (Suc m)
  let ?self' = "self\<lparr> num_step := num_step self + 1 * d \<rparr>"
  have w: "wired ?self'" using Suc.prems(1) by (simp add: wired_def)
  have dir: "direction ?self' = Some d" using Suc.prems(2) by simp
  from Suc.IH[OF w dir Suc.prems(3,4)] obtain evs where
    run: "constant_speed_loop m t ?self'
           = Inr (?self'\<lparr> num_step := num_step ?self' + int m * d \<rparr>, evs)"
    and sl: "sleeps evs = replicate m t"
    by blast
  obtain ws where ws: "run_one_step self = Inr ws" "sleeps ws = []"
    using run_one_step_wired[OF Suc.prems(1,2,3)] sleeps_step_writes by blast
  have st: "?self'\<lparr> num_step := num_step ?self' + int m * d \<rparr>
        = self\<lparr> num_step := num_step self + int (Suc m) * d \<rparr>"
    by (simp add: algebra_simps)
  have "constant_speed_loop (Suc m) t self
        = Inr (self\<lparr> num_step := num_step self + int (Suc m) * d \<rparr>, ws @ Sleep t # evs)"
    using ws(1) Suc.prems(2,4) run[unfolded st] by (simp add: sleep_raises_def)
  moreover have "sleeps (ws @ Sleep t # evs) = replicate (Suc m) t"
    by (simp add: sleeps_append ws(2) sl)
  ultimately show ?case by blast
qed

lemma linear_acceleration_up:
  assumes "wired self" and "direction self = Some d" and "d = 1 \<or> d = - 1"
    and "1 \<le> acceleration_factor self" and "m = nat \<lfloor>num_val steps\<rfloor>"
  shows "\<exists>evs. linear_acceleration self steps True
           = Inr (self\<lparr> actual_speed := acceleration_factor self * (int m + 1),
                        num_step := num_step self + int m * d \<rparr>, evs)
         \<and> sleeps evs = map (\<lambda>j. acceleration_factor self * (int j + 1)) [0..<m]"
proof -
  let ?f = "acceleration_factor self"
  let ?self1 = "self\<lparr> actual_speed := 1 * ?f \<rparr>"
  have w: "wired ?self1" using assms(1) by (simp add: wired_def)
  have dir: "direction ?self1 = Some d" using assms(2) by simp
  have m: "m = nat (\<lfloor>num_val steps\<rfloor> + 1 - 1)" using assms(5) by simp
  have p: "\<And>j. j < m \<Longrightarrow> 0 < actual_speed ?self1 + int j * (acceleration_factor ?self1 * 1)"
  proof -
    fix j :: nat
    have "0 \<le> int j * ?f" using assms(4) by simp
    with assms(4) have "0 < ?f + int j * ?f" by linarith
    then show "0 < actual_speed ?self1 + int j * (acceleration_factor ?self1 * 1)"
      by simp
  qed
  from linear_acceleration_loop_run[OF w dir assms(3) m p] obtain evs where
    run: "linear_acceleration_loop (num_val steps) 1 1 ?self1
           = Inr (?self1\<lparr> actual_speed := actual_speed ?self1 + int m * (acceleration_factor ?self1 * 1),
                        num_step := num_step ?self1 + int m * d \<rparr>, evs)"
    and sl: "sleeps evs
           = map (\<lambda>j. actual_speed ?self1 + int j * (acceleration_factor ?self1 * 1)) [0..<m]"
    by blast
  have st: "?self1\<lparr> actual_speed := actual_speed ?self1 + int m * (acceleration_factor ?self1 * 1),
                        num_step := num_step ?self1 + int m * d \<rparr>
        = self\<lparr> actual_speed := ?f * (int m + 1), num_step := num_step self + int m * d \<rparr>"
    by (simp add: algebra_simps)
  have "linear_acceleration self steps True
        = Inr (self\<lparr> actual_speed := ?f * (int m + 1), num_step := num_step self + int m * d \<rparr>, evs)"
    using run[unfolded st] by (simp add: linear_acceleration_def)
  moreover have "sleeps evs = map (\<lambda>j. ?f * (int j + 1)) [0..<m]"
    by (simp add: sl algebra_simps)
  ultimately show ?thesis by blast
qed

lemma linear_acceleration_down:
  assumes "wired self" and "direction self = Some d" and "d = 1 \<or> d = - 1"
    and "m = nat \<lfloor>num_val steps\<rfloor>"
    and "\<And>j. j < m \<Longrightarrow> 0 < actual_speed self - int j * acceleration_factor self"
  shows "\<exists>evs. linear_acceleration self steps False
           = Inr (self\<lparr> actual_speed := 0, num_step := num_step self + int m * d \<rparr>, evs)
         \<and> sleeps evs = map (\<lambda>j. actual_speed self - int j * acceleration_factor self) [0..<m]"
proof -
  let ?f = "acceleration_factor self"
  have m: "m = nat (\<lfloor>num_val steps\<rfloor> + 1 - 1)" using assms(4) by simp
  have p: "\<And>j. j < m \<Longrightarrow> 0 < actual_speed self + int j * (?f * (- 1))"
    using assms(5) by simp
  from linear_acceleration_loop_run[OF assms(1,2,3) m p] obtain evs where
    run: "linear_acceleration_loop (num_val steps) (- 1) 1 self
           = Inr (self\<lparr> actual_speed := actual_speed self + int m * (?f * (- 1)),
                        num_step := num_step self + int m * d \<rparr>, evs)"
    and sl: "sleeps evs = map (\<lambda>j. actual_speed self + int j * (?f * (- 1))) [0..<m]"
    by blast
  have "linear_acceleration self steps False
        = Inr (self\<lparr> actual_speed := 0, num_step := num_step self + int m * d \<rparr>, evs)"
    using run by (simp add: linear_acceleration_def)
  moreover have "sleeps evs = map (\<lambda>j. actual_speed self - int j * ?f) [0..<m]"
    by (simp add: sl)
  ultimately show ?thesis by blast
qed

lemma move_with_constant_speed_run:
  assumes "wired self" and "direction self = Some d" and "d = 1 \<or> d = - 1" and "0 < speed"
    and "m = nat (int_of_number steps)"
  shows "\<exists>evs. move_with_constant_speed self steps speed
           = Inr (self\<lparr> actual_speed := speed, num_step := num_step self + int m * d \<rparr>, evs)
         \<and> sleeps evs = replicate m speed"
proof -
  let ?self1 = "self\<lparr> actual_speed := speed \<rparr>"
  have w: "wired ?self1" using assms(1) by (simp add: wired_def)
  have dir: "direction ?self1 = Some d" using assms(2) by simp
  from assms(4) have t: "0 \<le> speed" by simp
  from constant_speed_loop_run[OF w dir assms(3) t, of m] obtain evs where
    run: "constant_speed_loop m speed ?self1
           = Inr (?self1\<lparr> num_step := num_step ?self1 + int m * d \<rparr>, evs)"
    and sl: "sleeps evs = replicate m speed"
    by blast
  have "move_with_constant_speed self steps speed
           = Inr (self\<lparr> actual_speed := speed, num_step := num_step self + int m * d \<rparr>, evs)"
    using run assms(4,5) by (simp add: move_with_constant_speed_def)
  with sl show ?thesis by blast
qed


section \<open>The plan of a move\<close>

lemma py_trunc_of_int: "py_trunc (of_int z) = z"
  by (simp add: py_trunc_def)

lemma floor_half: "\<lfloor>(of_int n :: rat) / 2\<rfloor> = n div 2"
  using floor_divide_of_int_eq[of n 2, where ?'a = rat] by simp

lemma set_direction_eq:
  "set_direction self v = self\<lparr> direction := Some (if 0 \<le> v then 1 else - 1) \<rparr>"
  by (simp add: set_direction_def)

lemma speed_limits_ge: "MIN_SPEED self \<le> speed_limits self speed"
  by (simp add: speed_limits_def Let_def)

lemma target_speed_pos: "limits_ok self \<Longrightarrow> 1 \<le> target_speed self v"
  using speed_limits_ge[of self "if v < 0 then abs v else v"]
  by (simp add: target_speed_def limits_ok_def)

lemma target_speed_less: "limits_ok self \<Longrightarrow> target_speed self v < 2 ^ 52"
  by (auto simp: target_speed_def limits_ok_def speed_limits_def Let_def)

lemma div_mult_bounds:
  assumes "1 \<le> (f::int)"
  shows "f * (S div f) \<le> S" and "S < f * (S div f + 1)"
proof -
  from assms have f: "0 < f" by simp
  have e: "S = f * (S div f) + S mod f" by simp
  have "0 \<le> S mod f" "S mod f < f" using f by simp_all
  with e show "f * (S div f) \<le> S" by linarith
  have "f * (S div f + 1) = f * (S div f) + f" by (simp add: algebra_simps)
  with e \<open>S mod f < f\<close> show "S < f * (S div f + 1)" by linarith
qed

text \<open>
  Below \<open>2 ^ 52\<close> the division of line 147 neither raises nor rounds the ramp length
  away from the integer quotient.
\<close>

lemma ramp_quotient:
  assumes "1 \<le> acceleration_factor self" and "acceleration_factor self < 2 ^ 52"
    and "0 \<le> speed" and "speed < 2 ^ 52"
  shows "py_truediv speed (acceleration_factor self)
         = Inr (round_double (of_int speed / of_int (acceleration_factor self)))"
    and "py_trunc (round_double (of_int speed / of_int (acceleration_factor self)))
         = speed div acceleration_factor self"
    and "0 \<le> speed div acceleration_factor self"
    and "speed div acceleration_factor self < 2 ^ 52"
proof -
  let ?f = "acceleration_factor self"
  have f0: "?f \<noteq> 0" using assms(1) by simp
  have F1: "(1::rat) \<le> of_int ?f" using assms(1) by simp
  have S0: "(0::rat) \<le> of_int speed" using assms(3) by simp
  have "(of_int speed :: rat) / of_int ?f \<le> of_int speed / 1"
    using F1 S0 by (intro divide_left_mono) simp_all
  moreover have "(of_int speed :: rat) < of_int (2 ^ 52)"
    using assms(4) by (simp only: of_int_less_iff)
  moreover have "(0::rat) \<le> of_int speed / of_int ?f" using F1 S0 by simp
  ultimately have "\<bar>(of_int speed :: rat) / of_int ?f\<bar> < 2 ^ 52" by simp
  moreover have "(2::rat) ^ 52 \<le> 2 ^ 1024 - 2 ^ 970" by simp
  ultimately have "\<not> double_overflow (of_int speed / of_int ?f)"
    unfolding double_overflow_def by linarith
  with f0 show "py_truediv speed ?f = Inr (round_double (of_int speed / of_int ?f))"
    by (simp add: py_truediv_def)
  have "speed < 2 ^ 53" "?f < 2 ^ 53" using assms(2,4) by simp_all
  from trunc_round_div[OF assms(3,1) this]
  show "py_trunc (round_double (of_int speed / of_int ?f)) = speed div ?f" .
  show "0 \<le> speed div ?f" using assms(1,3) by (simp add: pos_imp_zdiv_nonneg_iff)
  have "1 * (speed div ?f) \<le> ?f * (speed div ?f)"
    using assms(1) \<open>0 \<le> speed div ?f\<close> by (intro mult_right_mono) simp_all
  with div_mult_bounds(1)[OF assms(1), of speed] have "speed div ?f \<le> speed" by simp
  with assms(4) show "speed div ?f < 2 ^ 52" by simp
qed

lemma half_no_overflow:
  assumes "0 \<le> n" and "n < 2 ^ 53"
  shows "\<not> double_overflow (of_int n / 2)" and "\<not> double_overflow (of_int n)"
proof -
  have "(of_int n :: rat) < of_int (2 ^ 53)" using assms(2) by (simp only: of_int_less_iff)
  then have a: "(of_int n :: rat) < 2 ^ 53" by simp
  have b: "(0::rat) \<le> of_int n" using assms(1) by simp
  have c: "(2::rat) ^ 53 \<le> 2 ^ 1024 - 2 ^ 970" by simp
  from a b c show "\<not> double_overflow (of_int n)"
    unfolding double_overflow_def by linarith
  from a b c show "\<not> double_overflow (of_int n / 2)"
    unfolding double_overflow_def by (simp add: abs_if)
qed

text \<open>
  The test of line 150 in integers: the ramps are cut exactly when the step count is
  less than twice the integer quotient. From \<open>2 ^ 53\<close> on the half of the step count
  may be rounded, but it stays above every ramp length.
\<close>

lemma short_move_iff:
  assumes "1 \<le> acceleration_factor self" and "acceleration_factor self < 2 ^ 52"
    and "0 \<le> speed" and "speed < 2 ^ 52" and "0 \<le> step_num"
  shows "short_move self step_num speed \<longleftrightarrow> step_num < 2 * (speed div acceleration_factor self)"
proof -
  let ?k = "speed div acceleration_factor self"
  note q = ramp_quotient[OF assms(1,2,3,4)]
  have sm: "short_move self step_num speed
            \<longleftrightarrow> \<not> double_overflow (of_int step_num / 2)
                \<and> round_double (of_int step_num / 2) < of_int ?k"
  proof -
    have h: "py_truediv step_num 2
             = (if double_overflow (of_int step_num / 2) then Inl OverflowError
                else Inr (round_double (of_int step_num / 2)))"
      by (simp add: py_truediv_def)
    show ?thesis by (simp add: short_move_def q(1,2) h)
  qed
  show ?thesis
  proof (cases "step_num < 2 ^ 53")
    case True
    have "short_move self step_num speed \<longleftrightarrow> (of_int step_num :: rat) / 2 < of_int ?k"
      by (simp only: sm round_double_half[OF assms(5) True]
          half_no_overflow(1)[OF assms(5) True] not_False_eq_True simp_thms)
    also have "\<dots> \<longleftrightarrow> (of_int step_num :: rat) < of_int (2 * ?k)"
      by (simp add: field_simps)
    also have "\<dots> \<longleftrightarrow> step_num < 2 * ?k"
      by (simp only: of_int_less_iff)
    finally show ?thesis .
  next
    case False
    then have "(2::int) ^ 53 \<le> step_num" by simp
    then have "(of_int (2 ^ 53) :: rat) \<le> of_int step_num" by (simp only: of_int_le_iff)
    then have "(2::rat) ^ 52 \<le> of_int step_num / 2" by simp
    from round_double_ge[OF this] have a: "(2::rat) ^ 52 \<le> round_double (of_int step_num / 2)" .
    have "(of_int ?k :: rat) < of_int (2 ^ 52)" using q(4) by (simp only: of_int_less_iff)
    then have b: "(of_int ?k :: rat) < 2 ^ 52" by simp
    from a b have "\<not> round_double (of_int step_num / 2) < of_int ?k" by linarith
    moreover have "\<not> step_num < 2 * ?k" using False q(4) by simp
    ultimately show ?thesis by (simp only: sm simp_thms)
  qed
qed

lemma plan_long:
  assumes "1 \<le> acceleration_factor self" and "acceleration_factor self < 2 ^ 52"
    and "0 \<le> speed" and "speed < 2 ^ 52" and "0 \<le> step_num"
    and "\<not> double_overflow (of_int step_num / 2)"
    and "\<not> short_move self step_num speed"
  shows "acceleration_steps self step_num speed = Inr (IntN (speed div acceleration_factor self))"
    and "constant_speed_steps step_num (IntN (speed div acceleration_factor self))
         = Inr (IntN (step_num - 2 * (speed div acceleration_factor self)))"
    and "ramp_count self step_num speed = nat (speed div acceleration_factor self)"
    and "cruise_count self step_num speed = nat (step_num - 2 * (speed div acceleration_factor self))"
    and "2 * (speed div acceleration_factor self) \<le> step_num"
proof -
  let ?k = "speed div acceleration_factor self"
  note q = ramp_quotient[OF assms(1,2,3,4)]
  have h: "py_truediv step_num 2 = Inr (round_double (of_int step_num / 2))"
    using assms(6) by (simp add: py_truediv_def)
  from assms(7) show a: "acceleration_steps self step_num speed = Inr (IntN ?k)"
    by (simp add: acceleration_steps_def q(1) h short_move_def q(2))
  show c: "constant_speed_steps step_num (IntN ?k) = Inr (IntN (step_num - 2 * ?k))"
    by (simp add: constant_speed_steps_def)
  show "ramp_count self step_num speed = nat ?k"
    by (simp add: ramp_count_def a num_val_def)
  show "cruise_count self step_num speed = nat (step_num - 2 * ?k)"
    by (simp add: cruise_count_def a c int_of_number_def)
  from assms(7) show "2 * ?k \<le> step_num"
    by (simp add: short_move_iff[OF assms(1,2,3,4,5)])
qed

lemma plan_short:
  assumes "1 \<le> acceleration_factor self" and "acceleration_factor self < 2 ^ 52"
    and "0 \<le> speed" and "speed < 2 ^ 52" and "0 \<le> step_num"
    and "short_move self step_num speed"
  shows "acceleration_steps self step_num speed = Inr (FloatN (of_int step_num / 2))"
    and "constant_speed_steps step_num (FloatN (of_int step_num / 2)) = Inr (FloatN 0)"
    and "ramp_count self step_num speed = nat (step_num div 2)"
    and "cruise_count self step_num speed = 0"
    and "step_num div 2 < speed div acceleration_factor self"
    and "\<not> double_overflow (of_int step_num / 2)"
proof -
  let ?k = "speed div acceleration_factor self"
  note q = ramp_quotient[OF assms(1,2,3,4)]
  from assms(6) have lt: "step_num < 2 * ?k"
    by (simp add: short_move_iff[OF assms(1,2,3,4,5)])
  with q(4) have n53: "step_num < 2 ^ 53" by simp
  note no = half_no_overflow[OF assms(5) n53]
  show "\<not> double_overflow (of_int step_num / 2)" by (rule no(1))
  have h: "py_truediv step_num 2 = Inr (of_int step_num / 2)"
    using no(1) by (simp add: py_truediv_def round_double_half[OF assms(5) n53])
  from assms(6) show a: "acceleration_steps self step_num speed = Inr (FloatN (of_int step_num / 2))"
    by (simp add: acceleration_steps_def q(1) h short_move_def)
  have x: "py_float step_num = Inr (of_int step_num)"
    using no(2) by (simp add: py_float_def round_double_of_int[OF assms(5) n53])
  show c: "constant_speed_steps step_num (FloatN (of_int step_num / 2)) = Inr (FloatN 0)"
    by (simp add: constant_speed_steps_def x round_double_def)
  show "ramp_count self step_num speed = nat (step_num div 2)"
    by (simp add: ramp_count_def a num_val_def floor_half)
  show "cruise_count self step_num speed = 0"
    by (simp add: cruise_count_def a c int_of_number_def py_trunc_def)
  from lt show "step_num div 2 < ?k" by linarith
qed

text \<open>
  From \<open>2 ^ 1025 - 2 ^ 971\<close> steps on, \<^verbatim>\<open>step_num / 2\<close> on line 150 raises
  \<open>OverflowError\<close>.
\<close>

lemma plan_overflow:
  assumes "1 \<le> acceleration_factor self" and "acceleration_factor self < 2 ^ 52"
    and "0 \<le> speed" and "speed < 2 ^ 52"
    and "double_overflow (of_int step_num / 2)"
  shows "acceleration_steps self step_num speed = Inl OverflowError"
  using assms(5) ramp_quotient(1)[OF assms(1,2,3,4)]
  by (simp add: acceleration_steps_def py_truediv_def)

lemma limits_okD:
  assumes "limits_ok self"
  shows "1 \<le> acceleration_factor self" and "acceleration_factor self < 2 ^ 52"
    and "0 \<le> target_speed self v" and "target_speed self v < 2 ^ 52"
proof -
  from assms show "1 \<le> acceleration_factor self" "acceleration_factor self < 2 ^ 52"
    by (simp_all add: limits_ok_def)
  from target_speed_pos[OF assms, of v] show "0 \<le> target_speed self v" by simp
  from assms show "target_speed self v < 2 ^ 52" by (rule target_speed_less)
qed

lemma acceleration_steps_set_direction:
  "acceleration_steps (set_direction self v) n S = acceleration_steps self n S"
  by (simp add: acceleration_steps_def set_direction_eq)

lemma speed_limits_set_direction:
  "speed_limits (set_direction self v) (if v < 0 then abs v else v) = target_speed self v"
  by (simp add: target_speed_def set_direction_eq speed_limits_def Let_def)

lemma move_valid_phases:
  fixes self :: stepper and n v :: int
  defines "S \<equiv> target_speed self v"
    and "f \<equiv> acceleration_factor self"
    and "d \<equiv> (if 0 \<le> v then 1 else - 1 :: int)"
  defines "m \<equiv> ramp_count self n S"
    and "c \<equiv> cruise_count self n S"
  defines "C \<equiv> (if short_move self n S then f * (int m + 1) else S)"
  assumes w: "wired self" and l: "limits_ok self" and n: "0 \<le> n"
    and no: "\<not> double_overflow (of_int n / 2)"
  shows "\<exists>acc const s1 ev1 s2 ev2 s3 ev3.
      acceleration_steps self n S = Inr acc
    \<and> constant_speed_steps n acc = Inr const
    \<and> linear_acceleration (set_direction self v) acc True = Inr (s1, ev1)
    \<and> move_with_constant_speed s1 const (cruise_speed S s1) = Inr (s2, ev2)
    \<and> linear_acceleration s2 acc False = Inr (s3, ev3)
    \<and> move_valid self n v = Inr (None, s3, ev1 @ ev2 @ ev3)
    \<and> actual_speed s1 = f * (int m + 1)
    \<and> cruise_speed S s1 = C
    \<and> actual_speed s2 = C
    \<and> 0 < C
    \<and> (\<forall>j<m. 0 < C - int j * f)
    \<and> s3 = self\<lparr> direction := Some d, actual_speed := 0,
                  num_step := num_step self + (2 * int m + int c) * d \<rparr>
    \<and> sleeps ev1 = map (\<lambda>j. f * (int j + 1)) [0..<m]
    \<and> sleeps ev2 = replicate c C
    \<and> sleeps ev3 = map (\<lambda>j. C - int j * f) [0..<m]"
proof -
  let ?s0 = "set_direction self v"
  note lim = limits_okD(1,2)[OF l, folded f_def] limits_okD(3,4)[OF l, of v, folded S_def]
  from lim(1) have f1: "1 \<le> f" .
  from l have S1: "1 \<le> S" unfolding S_def by (rule target_speed_pos)
  then have S0: "0 \<le> S" by simp
  have s0: "?s0 = self\<lparr> direction := Some d \<rparr>" by (simp add: set_direction_eq d_def)
  have w0: "wired ?s0" using w by (simp add: s0 wired_def)
  have dir0: "direction ?s0 = Some d" by (simp add: s0)
  have d: "d = 1 \<or> d = - 1" by (simp add: d_def)
  have f0: "1 \<le> acceleration_factor ?s0" using f1 by (simp add: s0 f_def)
  \<comment> \<open>the lengths of the phases\<close>
  obtain acc const where
    ac: "acceleration_steps self n S = Inr acc"
    and co: "constant_speed_steps n acc = Inr const"
  proof (cases "short_move self n S")
    case True
    from plan_short(1,2)[OF lim[unfolded f_def] n True] that show ?thesis by blast
  next
    case False
    from plan_long(1,2)[OF lim[unfolded f_def] n no False] that show ?thesis by blast
  qed
  have mfl: "m = nat \<lfloor>num_val acc\<rfloor>" by (simp add: m_def ramp_count_def ac)
  have cfl: "c = nat (int_of_number const)" by (simp add: c_def cruise_count_def ac co)
  \<comment> \<open>the ramp up\<close>
  define s1 where "s1 = self\<lparr> direction := Some d, actual_speed := f * (int m + 1),
                               num_step := num_step self + int m * d \<rparr>"
  from linear_acceleration_up[OF w0 dir0 d f0 mfl] obtain ev1 where
    up: "linear_acceleration ?s0 acc True = Inr (s1, ev1)"
    and sl1: "sleeps ev1 = map (\<lambda>j. f * (int j + 1)) [0..<m]"
    by (auto simp: s0 s1_def f_def)
  have w1: "wired s1" using w by (simp add: s1_def wired_def)
  have dir1: "direction s1 = Some d" by (simp add: s1_def)
  have a1: "actual_speed s1 = f * (int m + 1)" by (simp add: s1_def)
  \<comment> \<open>the speed of the cruise\<close>
  have bounds: "f * (S div f) \<le> S" "S < f * (S div f + 1)"
    using div_mult_bounds[OF f1] by simp_all
  have CS: "cruise_speed S s1 = C \<and> 0 < C \<and> (\<forall>j<m. 0 < C - int j * f)"
  proof (cases "short_move self n S")
    case True
    from plan_short(3,5)[OF lim[unfolded f_def] n True]
    have mm: "m = nat (n div 2)" and lt: "n div 2 < S div f"
      by (simp_all add: m_def f_def)
    from n have "0 \<le> n div 2" by simp
    with mm lt have "int m + 1 \<le> S div f" by simp
    then have "f * (int m + 1) \<le> f * (S div f)" using f1 by (simp add: mult_left_mono)
    with bounds(1) have le: "f * (int m + 1) \<le> S" by simp
    have C: "C = f * (int m + 1)" using True by (simp add: C_def)
    have "cruise_speed S s1 = C" using le by (simp add: cruise_speed_def a1 C)
    moreover have "0 < C" using f1 by (simp add: C)
    moreover have "\<forall>j<m. 0 < C - int j * f"
    proof (intro allI impI)
      fix j assume "j < m"
      then have "0 < int m + 1 - int j" by simp
      with f1 have "0 < f * (int m + 1 - int j)" by simp
      then show "0 < C - int j * f" by (simp add: C algebra_simps)
    qed
    ultimately show ?thesis by blast
  next
    case False
    from plan_long(3)[OF lim[unfolded f_def] n no False]
    have mm: "m = nat (S div f)" by (simp add: m_def f_def)
    have k0: "0 \<le> S div f" using S0 f1 by (simp add: pos_imp_zdiv_nonneg_iff)
    with mm have im: "int m = S div f" by simp
    have C: "C = S" using False by (simp add: C_def)
    have "cruise_speed S s1 = C" using bounds(2) by (simp add: cruise_speed_def a1 C im)
    moreover have "0 < C" using S1 by (simp add: C)
    moreover have "\<forall>j<m. 0 < C - int j * f"
    proof (intro allI impI)
      fix j assume "j < m"
      then have "int j + 1 \<le> S div f" using im by simp
      then have "f * (int j + 1) \<le> f * (S div f)" using f1 by (simp add: mult_left_mono)
      with bounds(1) have "f * int j + f \<le> S" by (simp add: algebra_simps)
      with f1 show "0 < C - int j * f" by (simp add: C algebra_simps)
    qed
    ultimately show ?thesis by blast
  qed
  \<comment> \<open>the cruise\<close>
  define s2 where "s2 = s1\<lparr> actual_speed := C, num_step := num_step s1 + int c * d \<rparr>"
  from CS have Cpos: "0 < cruise_speed S s1" by simp
  from move_with_constant_speed_run[OF w1 dir1 d Cpos cfl] obtain ev2 where
    cr: "move_with_constant_speed s1 const (cruise_speed S s1) = Inr (s2, ev2)"
    and sl2: "sleeps ev2 = replicate c C"
    using CS by (auto simp: s2_def)
  have w2: "wired s2" using w1 by (simp add: s2_def wired_def)
  have dir2: "direction s2 = Some d" using dir1 by (simp add: s2_def)
  have a2: "actual_speed s2 = C" by (simp add: s2_def)
  have f2: "acceleration_factor s2 = f" by (simp add: s2_def s1_def f_def)
  \<comment> \<open>the ramp down\<close>
  define s3 where "s3 = s2\<lparr> actual_speed := 0, num_step := num_step s2 + int m * d \<rparr>"
  have p: "\<And>j. j < m \<Longrightarrow> 0 < actual_speed s2 - int j * acceleration_factor s2"
    using CS by (simp add: a2 f2)
  from linear_acceleration_down[OF w2 dir2 d mfl p] obtain ev3 where
    dn: "linear_acceleration s2 acc False = Inr (s3, ev3)"
    and sl3: "sleeps ev3 = map (\<lambda>j. C - int j * f) [0..<m]"
    by (auto simp: s3_def a2 f2)
  have e3: "s3 = self\<lparr> direction := Some d, actual_speed := 0,
                  num_step := num_step self + (2 * int m + int c) * d \<rparr>"
    by (simp add: s3_def s2_def s1_def algebra_simps)
  have ts: "speed_limits ?s0 (if v < 0 then abs v else v) = S"
    by (simp add: S_def speed_limits_set_direction)
  have acc0: "acceleration_steps ?s0 n S = Inr acc"
    by (simp add: acceleration_steps_set_direction ac)
  have mv: "move_valid self n v = Inr (None, s3, ev1 @ ev2 @ ev3)"
    unfolding move_valid_def Let_def ts acc0 using co up cr dn by simp
  from CS have c1: "cruise_speed S s1 = C" and c2: "0 < C"
    and c3: "\<forall>j<m. 0 < C - int j * f"
    by simp_all
  from ac co up cr dn mv a1 c1 a2 c2 c3 e3 sl1 sl2 sl3 show ?thesis by blast
qed

section \<open>A whole move\<close>

text \<open>
  With the wiring in place and the limits in range, a move with a step count that is
  not negative and whose half is a float runs its three phases to the end. The lemma
  gives the final object, the speeds of all sleeps and the speed handed to the cruise.
  A step count whose half is no float makes line 150 raise before any step.
\<close>

lemma move_ints: "0 \<le> n \<Longrightarrow> move self (PInt n) (PInt v) = move_valid self n v"
  by (simp add: move_def py_int_def)

lemma move_run:
  fixes self :: stepper and n v :: int
  defines "S \<equiv> target_speed self v"
    and "f \<equiv> acceleration_factor self"
    and "d \<equiv> (if 0 \<le> v then 1 else - 1 :: int)"
  defines "m \<equiv> ramp_count self n S"
    and "c \<equiv> cruise_count self n S"
  defines "C \<equiv> (if short_move self n S then f * (int m + 1) else S)"
  assumes w: "wired self" and l: "limits_ok self" and n: "0 \<le> n"
    and no: "\<not> double_overflow (of_int n / 2)"
  shows "\<exists>evs. move self (PInt n) (PInt v)
           = Inr (None, self\<lparr> direction := Some d, actual_speed := 0,
                               num_step := num_step self + (2 * int m + int c) * d \<rparr>, evs)
         \<and> sleeps evs = map (\<lambda>j. f * (int j + 1)) [0..<m] @ replicate c C
                          @ map (\<lambda>j. C - int j * f) [0..<m]
         \<and> cruise_speed_of_move self n v = Some C"
proof -
  from move_valid_phases[OF w l n no, of v] obtain acc const s1 ev1 s2 ev2 s3 ev3 where
    ac: "acceleration_steps self n S = Inr acc"
    and co: "constant_speed_steps n acc = Inr const"
    and up: "linear_acceleration (set_direction self v) acc True = Inr (s1, ev1)"
    and mv: "move_valid self n v = Inr (None, s3, ev1 @ ev2 @ ev3)"
    and cs: "cruise_speed S s1 = C"
    and s3: "s3 = self\<lparr> direction := Some d, actual_speed := 0,
                  num_step := num_step self + (2 * int m + int c) * d \<rparr>"
    and sl: "sleeps ev1 = map (\<lambda>j. f * (int j + 1)) [0..<m]" "sleeps ev2 = replicate c C"
      "sleeps ev3 = map (\<lambda>j. C - int j * f) [0..<m]"
    unfolding S_def f_def d_def m_def c_def C_def by blast
  have "cruise_speed_of_move self n v = Some C"
    using ac co up cs
    by (simp add: cruise_speed_of_move_def acceleration_steps_set_direction S_def)
  moreover have "move self (PInt n) (PInt v) = Inr (None, s3, ev1 @ ev2 @ ev3)"
    using mv n by (simp add: move_ints)
  moreover have "sleeps (ev1 @ ev2 @ ev3) = map (\<lambda>j. f * (int j + 1)) [0..<m] @ replicate c C
                          @ map (\<lambda>j. C - int j * f) [0..<m]"
    by (simp add: sleeps_append sl)
  ultimately show ?thesis unfolding s3 by blast
qed

lemma move_overflow:
  assumes l: "limits_ok self" and n: "0 \<le> n" and o: "double_overflow (of_int n / 2)"
  shows "move self (PInt n) (PInt v) = Inl (OverflowError, set_direction self v, [])"
    and "cruise_speed_of_move self n v = None"
proof -
  note lim = limits_okD(1,2)[OF l] limits_okD(3,4)[OF l, of v]
  have a: "acceleration_steps (set_direction self v) n (target_speed self v) = Inl OverflowError"
    unfolding acceleration_steps_set_direction by (rule plan_overflow[OF lim o])
  show "move self (PInt n) (PInt v) = Inl (OverflowError, set_direction self v, [])"
    unfolding move_ints[OF n] move_valid_def Let_def speed_limits_set_direction a by simp
  show "cruise_speed_of_move self n v = None"
    unfolding cruise_speed_of_move_def Let_def a by simp
qed

lemma target_speed_abs: "target_speed self v = speed_limits self \<bar>v\<bar>"
  by (simp add: target_speed_def)

lemma fold_max_le:
  "(\<And>x. x \<in> set xs \<Longrightarrow> x \<le> b) \<Longrightarrow> a \<le> b \<Longrightarrow> fold max xs a \<le> (b::int)"
  by (induction xs arbitrary: a) simp_all

lemma sleeps_positive_parts:
  assumes "1 \<le> (f::int)" and "0 < C" and "\<forall>j<m. 0 < C - int j * f"
  shows "\<forall>x\<in>set (map (\<lambda>j. f * (int j + 1)) [0..<m] @ replicate c C
                     @ map (\<lambda>j. C - int j * f) [0..<m]). 0 < x"
  using assms by auto

lemma result_state_Inr: "result_state (Inr (r, s, evs)) = Some s"
  by (simp add: result_state_def)

lemma result_trace_Inr: "result_trace (Inr (r, s, evs)) = Some evs"
  by (simp add: result_trace_def)

lemma final_state_simps:
  "final_state (Inr (r, s, evs)) = s" "final_state (Inl (e, s, evs)) = s"
  by (simp_all add: final_state_def)

section \<open>What a move leaves alone\<close>

lemma unchanged_refl: "unchanged a a"
  by (simp add: unchanged_def)

lemma unchanged_trans: "unchanged a b \<Longrightarrow> unchanged b c \<Longrightarrow> unchanged a c"
  by (simp add: unchanged_def)

lemma linear_acceleration_loop_frame:
  "linear_acceleration_loop steps a count self = Inr (self', evs) \<Longrightarrow> unchanged self self'"
proof (induction steps a count self arbitrary: self' evs rule: linear_acceleration_loop.induct)
  case (1 steps a count self)
  show ?case
  proof (cases "of_int count \<le> steps")
    case False
    with "1.prems" have "self' = self" by (simp add: linear_acceleration_loop.simps)
    then show ?thesis by (simp add: unchanged_refl)
  next
    case True
    from "1.prems" True obtain ws d s evs' where
      z: "actual_speed self \<noteq> 0" and ws: "run_one_step self = Inr ws"
      and d: "direction self = Some d" and neg: "\<not> sleep_raises (actual_speed self)"
      and rec: "linear_acceleration_loop steps a (count + 1)
                  (self\<lparr> actual_speed := actual_speed self + 1 * acceleration_factor self * a,
                         num_step := num_step self + 1 * d \<rparr>) = Inr (self', evs')"
      by (subst (asm) linear_acceleration_loop.simps)
         (auto simp: Let_def split: if_splits sum.splits option.splits prod.splits)
    from "1.IH"[OF True z ws refl d refl neg rec] show ?thesis by (simp add: unchanged_def)
  qed
qed

lemma linear_acceleration_frame:
  "linear_acceleration self steps b = Inr (self', evs) \<Longrightarrow> unchanged self self'"
  by (auto simp: linear_acceleration_def Let_def unchanged_def
      split: if_splits sum.splits prod.splits dest!: linear_acceleration_loop_frame)

lemma constant_speed_loop_frame:
  "constant_speed_loop m t self = Inr (self', evs) \<Longrightarrow> unchanged self self'"
proof (induction m arbitrary: self self' evs)
  case 0
  then show ?case by (simp add: unchanged_refl)
next
  case (Suc m)
  from Suc.prems obtain d evs' where
    rec: "constant_speed_loop m t (self\<lparr> num_step := num_step self + 1 * d \<rparr>) = Inr (self', evs')"
    by (auto simp: Let_def split: if_splits sum.splits option.splits prod.splits)
  from Suc.IH[OF rec] show ?case by (simp add: unchanged_def)
qed

lemma move_with_constant_speed_frame:
  "move_with_constant_speed self steps speed = Inr (self', evs) \<Longrightarrow> unchanged self self'"
  by (auto simp: move_with_constant_speed_def Let_def unchanged_def
      split: if_splits dest!: constant_speed_loop_frame)

lemma move_valid_frame:
  assumes "move_valid self n v = Inr (r, self', evs)"
  shows "unchanged self self'"
proof -
  let ?s0 = "set_direction self v"
  from assms obtain acc c sp s1 ev1 s2 ev2 ev3 where
    up: "linear_acceleration ?s0 acc True = Inr (s1, ev1)"
    and cr: "move_with_constant_speed s1 c sp = Inr (s2, ev2)"
    and dn: "linear_acceleration s2 acc False = Inr (self', ev3)"
    by (auto simp: move_valid_def Let_def split: if_splits sum.splits prod.splits)
  have a: "unchanged self ?s0" by (simp add: set_direction_eq unchanged_def)
  have b: "unchanged ?s0 s1" using up by (rule linear_acceleration_frame)
  have c: "unchanged s1 s2" using cr by (rule move_with_constant_speed_frame)
  have d: "unchanged s2 self'" using dn by (rule linear_acceleration_frame)
  from a b c d show ?thesis by (simp add: unchanged_def)
qed

lemma move_unchanged:
  assumes "move self a b = Inr (r, self', evs)"
  shows "unchanged self self'"
  using assms
  by (auto simp: move_def unchanged_refl split: if_splits sum.splits dest: move_valid_frame)

lemma plan_frame:
  assumes "unchanged self self'"
  shows "target_speed self' v = target_speed self v"
    and "short_move self' n S = short_move self n S"
    and "ramp_count self' n S = ramp_count self n S"
    and "cruise_count self' n S = cruise_count self n S"
    and "wired self' = wired self"
    and "limits_ok self' = limits_ok self"
  using assms
  by (simp_all add: unchanged_def target_speed_def speed_limits_def short_move_def
      ramp_count_def cruise_count_def acceleration_steps_def wired_def limits_ok_def Let_def)

section \<open>Moves of the object built by the constructor\<close>

lemma motor1_ok: "wired motor1" "limits_ok motor1"
  by (simp_all add: wired_def limits_ok_def motor1_def)

lemma motor1_fields:
  "acceleration_factor motor1 = 1" "MIN_SPEED motor1 = 10" "MAX_SPEED motor1 = 500"
  "num_step motor1 = 0" "actual_speed motor1 = 0"
  by (simp_all add: motor1_def)

lemma default_limits_ok: "default_limits self \<Longrightarrow> limits_ok self"
  by (simp add: default_limits_def limits_ok_def)

lemma motor1_default: "default_limits motor1"
  by (simp add: default_limits_def motor1_def)

lemma short_move_default:
  assumes w: "wired self" and dl: "default_limits self" and n: "0 \<le> n"
    and S: "target_speed self v = S" and sh: "n < 2 * S"
  shows "\<exists>evs. move self (PInt n) (PInt v)
          = Inr (None, self\<lparr> direction := Some (if 0 \<le> v then 1 else - 1), actual_speed := 0,
                              num_step := num_step self
                                + 2 * (n div 2) * (if 0 \<le> v then 1 else - 1) \<rparr>, evs)
        \<and> sleeps evs = map (\<lambda>j. int j + 1) [0..<nat (n div 2)]
                        @ map (\<lambda>j. n div 2 + 1 - int j) [0..<nat (n div 2)]
        \<and> cruise_speed_of_move self n v = Some (n div 2 + 1)"
proof -
  from dl have f: "acceleration_factor self = 1" by (simp add: default_limits_def)
  have l: "limits_ok self" using dl by (rule default_limits_ok)
  note lim = limits_okD(1,2)[OF l] limits_okD(3,4)[OF l, of v, unfolded S]
  have short: "short_move self n S" using sh by (simp add: short_move_iff[OF lim n] f)
  note plan = plan_short[OF lim n short]
  have r: "ramp_count self n S = nat (n div 2)" and c: "cruise_count self n S = 0"
    by (rule plan(3), rule plan(4))
  from n have i: "int (nat (n div 2)) = n div 2" by simp
  from move_run[OF w l n plan(6), of v] show ?thesis
    unfolding S r c f i using short by (simp add: algebra_simps)
qed

text \<open>
  With the constants of the constructor the ramps are cut exactly when the step count is
  less than twice the limited speed.
\<close>

lemma plan_default:
  assumes dl: "default_limits self" and n: "0 \<le> n" and S: "0 \<le> S" "S < 2 ^ 52"
  shows "short_move self n S \<longleftrightarrow> n < 2 * S"
    and "2 * S \<le> n \<Longrightarrow> \<not> double_overflow (of_int n / 2)
         \<Longrightarrow> ramp_count self n S = nat S \<and> cruise_count self n S = nat (n - 2 * S)"
proof -
  from dl have f: "acceleration_factor self = 1" by (simp add: default_limits_def)
  have l: "limits_ok self" using dl by (rule default_limits_ok)
  note lim = limits_okD(1,2)[OF l] S
  show sm: "short_move self n S \<longleftrightarrow> n < 2 * S" by (simp add: short_move_iff[OF lim n] f)
  assume "2 * S \<le> n" and no: "\<not> double_overflow (of_int n / 2)"
  then have "\<not> short_move self n S" by (simp add: sm)
  from plan_long(3,4)[OF lim n no this]
  show "ramp_count self n S = nat S \<and> cruise_count self n S = nat (n - 2 * S)"
    by (simp add: f)
qed

lemma move_default_20_100:
  assumes "wired self" and "default_limits self"
  shows "\<exists>evs. move self (PInt 20) (PInt 100)
          = Inr (None, self\<lparr> direction := Some 1, actual_speed := 0,
                              num_step := num_step self + 20 \<rparr>, evs)
        \<and> sleeps evs = [1, 2, 3, 4, 5, 6, 7, 8, 9, 10, 11, 10, 9, 8, 7, 6, 5, 4, 3, 2]
        \<and> cruise_speed_of_move self 20 100 = Some 11"
proof -
  have S: "target_speed self 100 = 100"
    using assms(2) by (simp add: target_speed_def speed_limits_def default_limits_def)
  have l: "map (\<lambda>j. int j + 1) [0..<10] @ map (\<lambda>j. 11 - int j) [0..<10]
           = [1, 2, 3, 4, 5, 6, 7, 8, 9, 10, 11, 10, 9, 8, 7, 6, 5, 4, 3, 2]"
    by code_simp
  from short_move_default[OF assms _ S, of 20] show ?thesis by (simp add: l)
qed

lemma move_default_20_1000:
  assumes "wired self" and "default_limits self"
  shows "\<exists>evs. move self (PInt 20) (PInt 1000)
          = Inr (None, self\<lparr> direction := Some 1, actual_speed := 0,
                              num_step := num_step self + 20 \<rparr>, evs)
        \<and> sleeps evs = [1, 2, 3, 4, 5, 6, 7, 8, 9, 10, 11, 10, 9, 8, 7, 6, 5, 4, 3, 2]
        \<and> cruise_speed_of_move self 20 1000 = Some 11"
proof -
  have S: "target_speed self 1000 = 500"
    using assms(2) by (simp add: target_speed_def speed_limits_def default_limits_def)
  have l: "map (\<lambda>j. int j + 1) [0..<10] @ map (\<lambda>j. 11 - int j) [0..<10]
           = [1, 2, 3, 4, 5, 6, 7, 8, 9, 10, 11, 10, 9, 8, 7, 6, 5, 4, 3, 2]"
    by code_simp
  from short_move_default[OF assms _ S, of 20] show ?thesis by (simp add: l)
qed

lemma move_default_5_100:
  assumes "wired self" and "default_limits self"
  shows "\<exists>evs. move self (PInt 5) (PInt 100)
          = Inr (None, self\<lparr> direction := Some 1, actual_speed := 0,
                              num_step := num_step self + 4 \<rparr>, evs)
        \<and> sleeps evs = [1, 2, 3, 2]
        \<and> cruise_speed_of_move self 5 100 = Some 3"
proof -
  have S: "target_speed self 100 = 100"
    using assms(2) by (simp add: target_speed_def speed_limits_def default_limits_def)
  have l: "map (\<lambda>j. int j + 1) [0..<2] @ map (\<lambda>j. 3 - int j) [0..<2] = [1, 2, 3, 2]"
    by code_simp
  from short_move_default[OF assms _ S, of 5] show ?thesis by (simp add: l)
qed

lemma move_default_19_10:
  assumes "wired self" and "default_limits self"
  shows "\<exists>evs. move self (PInt 19) (PInt 10)
          = Inr (None, self\<lparr> direction := Some 1, actual_speed := 0,
                              num_step := num_step self + 18 \<rparr>, evs)
        \<and> sleeps evs = [1, 2, 3, 4, 5, 6, 7, 8, 9, 10, 9, 8, 7, 6, 5, 4, 3, 2]
        \<and> cruise_speed_of_move self 19 10 = Some 10"
proof -
  have S: "target_speed self 10 = 10"
    using assms(2) by (simp add: target_speed_def speed_limits_def default_limits_def)
  have l: "map (\<lambda>j. int j + 1) [0..<9] @ map (\<lambda>j. 10 - int j) [0..<9]
           = [1, 2, 3, 4, 5, 6, 7, 8, 9, 10, 9, 8, 7, 6, 5, 4, 3, 2]"
    by code_simp
  from short_move_default[OF assms _ S, of 19] show ?thesis by (simp add: l)
qed

lemma move_default_2_0:
  assumes "wired self" and "default_limits self"
  shows "\<exists>evs. move self (PInt 2) (PInt 0)
          = Inr (None, self\<lparr> direction := Some 1, actual_speed := 0,
                              num_step := num_step self + 2 \<rparr>, evs)
        \<and> sleeps evs = [1, 2]
        \<and> cruise_speed_of_move self 2 0 = Some 2"
proof -
  have S: "target_speed self 0 = 10"
    using assms(2) by (simp add: target_speed_def speed_limits_def default_limits_def)
  have l: "map (\<lambda>j. int j + 1) [0..<1] @ map (\<lambda>j. 2 - int j) [0..<1] = [1, 2]"
    by code_simp
  from short_move_default[OF assms _ S, of 2] show ?thesis by (simp add: l)
qed

section \<open>The number of steps of a move\<close>

text \<open>
  What every move adds to the step counter: the whole step count when the ramps are
  not cut, and twice the half of it, rounded down, when they are.
\<close>

lemma move_counter:
  assumes "wired self" and "limits_ok self" and "0 \<le> n"
    and "\<not> double_overflow (of_int n / 2)"
  shows "\<exists>s evs. move self (PInt n) (PInt v) = Inr (None, s, evs)
         \<and> num_step s = num_step self
             + (if short_move self n (target_speed self v) then 2 * (n div 2) else n)
               * (if 0 \<le> v then 1 else - 1)"
proof -
  let ?S = "target_speed self v" and ?f = "acceleration_factor self"
  note lim = limits_okD(1,2)[OF assms(2)] limits_okD(3,4)[OF assms(2), of v]
  have k: "2 * int (ramp_count self n ?S) + int (cruise_count self n ?S)
           = (if short_move self n ?S then 2 * (n div 2) else n)"
  proof (cases "short_move self n ?S")
    case True
    from plan_short(3,4)[OF lim assms(3) True] assms(3) True show ?thesis by simp
  next
    case False
    from plan_long(3,4,5)[OF lim assms(3,4) False] ramp_quotient(3)[OF lim] False
    show ?thesis by simp
  qed
  from move_run[OF assms, of v] obtain evs where
    "move self (PInt n) (PInt v)
       = Inr (None, self\<lparr> direction := Some (if 0 \<le> v then 1 else - 1), actual_speed := 0,
            num_step := num_step self
              + (2 * int (ramp_count self n ?S) + int (cruise_count self n ?S))
                * (if 0 \<le> v then 1 else - 1) \<rparr>, evs)"
    by blast
  then show ?thesis unfolding k by force
qed

text \<open>
  C1. The claim is that a completed \<^verbatim>\<open>move(stepCount, signedSpeed)\<close> changes the step
  counter by exactly \<open>direction * stepCount\<close>. When the ramps are cut to
  \<^verbatim>\<open>step_num / 2\<close> and \<open>step_num\<close> is odd, the two \<^verbatim>\<open>while count <= steps\<close> loops run
  \<open>step_num div 2\<close> times each and the cruise runs \<^verbatim>\<open>int(0.0)\<close> times: one step is
  lost. From the fresh object, \<^verbatim>\<open>move(5, 100)\<close> returns with the counter at 4.
\<close>

theorem move_5_100_makes_4_steps:
  "num_step motor1 = 0
   \<and> (\<exists>evs. move motor1 (PInt 5) (PInt 100)
          = Inr (None, motor1\<lparr> direction := Some 1, actual_speed := 0, num_step := 4 \<rparr>, evs)
        \<and> sleeps evs = [1, 2, 3, 2])"
  using move_default_5_100[OF motor1_ok(1) motor1_default] by (auto simp: motor1_fields)

section \<open>The speed of the cruise\<close>

text \<open>
  When the ramps are cut the ramp up stops at
  \<open>acceleration_factor * (step_num div 2 + 1)\<close>, which is at most the limited speed;
  when they are not, it ends above the limited speed. Either way the speed handed to
  the cruise is the lesser of the two.
\<close>

lemma cruise_speed_min:
  fixes self :: stepper and n v :: int
  defines "S \<equiv> target_speed self v" and "f \<equiv> acceleration_factor self"
  assumes l: "limits_ok self" and n: "0 \<le> n"
    and no: "\<not> double_overflow (of_int n / 2)"
  shows "(if short_move self n S then f * (int (ramp_count self n S) + 1) else S)
         = min S (f * (n div 2 + 1))"
    and "\<not> short_move self n S \<Longrightarrow> S \<le> f * (n div 2 + 1)"
proof -
  note lim = limits_okD(1,2)[OF l] limits_okD(3,4)[OF l, of v]
  from lim(1) have f1: "1 \<le> f" by (simp add: f_def)
  have long: "S \<le> f * (n div 2 + 1)" if ns: "\<not> short_move self n S"
  proof -
    from plan_long(5)[OF lim n no ns[unfolded S_def]] have "2 * (S div f) \<le> n"
      by (simp add: S_def f_def)
    then have "S div f + 1 \<le> n div 2 + 1" by linarith
    then have "f * (S div f + 1) \<le> f * (n div 2 + 1)" using f1 by (intro mult_left_mono) simp_all
    with div_mult_bounds(2)[OF f1, of S] show ?thesis by linarith
  qed
  then show "\<not> short_move self n S \<Longrightarrow> S \<le> f * (n div 2 + 1)" .
  show "(if short_move self n S then f * (int (ramp_count self n S) + 1) else S)
         = min S (f * (n div 2 + 1))"
  proof (cases "short_move self n S")
    case True
    from plan_short(3,5)[OF lim n True[unfolded S_def]]
    have r: "ramp_count self n S = nat (n div 2)" and lt: "n div 2 < S div f"
      by (simp_all add: S_def f_def)
    from n have i: "int (nat (n div 2)) = n div 2" by simp
    from lt have "n div 2 + 1 \<le> S div f" by simp
    then have "f * (n div 2 + 1) \<le> f * (S div f)" using f1 by (intro mult_left_mono) simp_all
    with div_mult_bounds(1)[OF f1, of S] have le: "f * (n div 2 + 1) \<le> S" by linarith
    have "f * (int (ramp_count self n S) + 1) = f * (n div 2 + 1)" by (simp only: r i)
    with le True show ?thesis by (simp only: min_def if_True) simp
  next
    case False
    from long[OF False] False show ?thesis by (simp add: min_def)
  qed
qed

text \<open>
  C2 (amended). For a move with a step count that is not negative, on an object with
  the wiring in place, the limits in range and \<open>MIN_SPEED \<le> MAX_SPEED\<close>: if the
  magnitude of the requested speed exceeds \<open>MAX_SPEED\<close> the limited speed \<open>T\<close> is
  exactly \<open>MAX_SPEED\<close>, and if the magnitude lies strictly between 0 and \<open>MIN_SPEED\<close>
  it is exactly \<open>MIN_SPEED\<close>. Unless \<^verbatim>\<open>step_num / 2\<close> raises \<open>OverflowError\<close>, the
  move returns and the speed handed to the cruise, at which every step of the cruise
  sleeps, is the lesser of \<open>T\<close> and \<open>acceleration_factor * (step_num div 2 + 1)\<close>. It
  is \<open>T\<close> exactly when \<open>T \<le> acceleration_factor * (step_num div 2 + 1)\<close>, which
  holds whenever the ramps are not cut.
\<close>

theorem cruise_speed_limited:
  assumes "wired self" and "limits_ok self" and "MIN_SPEED self \<le> MAX_SPEED self"
    and "0 \<le> n"
    and "(MAX_SPEED self < \<bar>v\<bar> \<and> T = MAX_SPEED self)
         \<or> (0 < \<bar>v\<bar> \<and> \<bar>v\<bar> < MIN_SPEED self \<and> T = MIN_SPEED self)"
  shows "target_speed self v = T
    \<and> cruise_speed_of_move self n v
        = (if double_overflow (of_int n / 2) then None
           else Some (min T (acceleration_factor self * (n div 2 + 1))))
    \<and> (cruise_speed_of_move self n v = Some T
        \<longleftrightarrow> \<not> double_overflow (of_int n / 2)
            \<and> T \<le> acceleration_factor self * (n div 2 + 1))
    \<and> (\<not> double_overflow (of_int n / 2) \<and> \<not> short_move self n T
        \<longrightarrow> T \<le> acceleration_factor self * (n div 2 + 1))
    \<and> (double_overflow (of_int n / 2)
        \<longrightarrow> move self (PInt n) (PInt v) = Inl (OverflowError, set_direction self v, []))
    \<and> (\<not> double_overflow (of_int n / 2)
        \<longrightarrow> (\<exists>s evs. move self (PInt n) (PInt v) = Inr (None, s, evs)
              \<and> sleeps evs
                  = map (\<lambda>j. acceleration_factor self * (int j + 1)) [0..<ramp_count self n T]
                    @ replicate (cruise_count self n T)
                        (min T (acceleration_factor self * (n div 2 + 1)))
                    @ map (\<lambda>j. min T (acceleration_factor self * (n div 2 + 1))
                                - int j * acceleration_factor self)
                        [0..<ramp_count self n T]))"
proof -
  let ?f = "acceleration_factor self"
  let ?C = "min T (?f * (n div 2 + 1))"
  from assms(3,5) have T: "target_speed self v = T"
    by (auto simp: target_speed_abs speed_limits_def Let_def)
  show ?thesis
  proof (cases "double_overflow (of_int n / 2)")
    case True
    from move_overflow[OF assms(2,4) True, of v] T True show ?thesis by simp
  next
    case False
    note m = cruise_speed_min[OF assms(2,4) False, of v, unfolded T]
    from move_run[OF assms(1,2,4) False, of v] obtain evs where
      mv: "move self (PInt n) (PInt v)
            = Inr (None, self\<lparr> direction := Some (if 0 \<le> v then 1 else - 1), actual_speed := 0,
                 num_step := num_step self
                   + (2 * int (ramp_count self n T) + int (cruise_count self n T))
                     * (if 0 \<le> v then 1 else - 1) \<rparr>, evs)"
      and sl: "sleeps evs
                  = map (\<lambda>j. ?f * (int j + 1)) [0..<ramp_count self n T]
                    @ replicate (cruise_count self n T) ?C
                    @ map (\<lambda>j. ?C - int j * ?f) [0..<ramp_count self n T]"
      and cs: "cruise_speed_of_move self n v = Some ?C"
      unfolding T m(1) by blast
    have a: "cruise_speed_of_move self n v
        = (if double_overflow (of_int n / 2) then None else Some ?C)"
      using False cs by simp
    have b: "cruise_speed_of_move self n v = Some T
        \<longleftrightarrow> \<not> double_overflow (of_int n / 2) \<and> T \<le> ?f * (n div 2 + 1)"
      using False cs by (auto simp: min_def)
    have c: "\<not> double_overflow (of_int n / 2) \<and> \<not> short_move self n T
        \<longrightarrow> T \<le> ?f * (n div 2 + 1)"
      using m(2) by blast
    have d: "\<exists>s evs. move self (PInt n) (PInt v) = Inr (None, s, evs)
              \<and> sleeps evs
                  = map (\<lambda>j. ?f * (int j + 1)) [0..<ramp_count self n T]
                    @ replicate (cruise_count self n T) ?C
                    @ map (\<lambda>j. ?C - int j * ?f) [0..<ramp_count self n T]"
      using mv sl by blast
    from T a b c d False show ?thesis by blast
  qed
qed

text \<open>
  The hypotheses of C2 hold on the fresh object for \<^verbatim>\<open>move(2000, 1000)\<close>, which
  cruises 1000 steps at \<open>MAX_SPEED = 500\<close>; for \<^verbatim>\<open>move(100, 3)\<close>, which cruises 80
  steps at \<open>MIN_SPEED = 10\<close>; for \<^verbatim>\<open>move(19, 3)\<close>, whose ramps are cut and reach 10;
  and for \<^verbatim>\<open>move(2 ** 1025, 1000)\<close>, which raises \<open>OverflowError\<close>.
\<close>

theorem cruise_speed_limited_witness:
  "wired motor1 \<and> limits_ok motor1 \<and> MIN_SPEED motor1 \<le> MAX_SPEED motor1
   \<and> MAX_SPEED motor1 < \<bar>1000\<bar> \<and> MAX_SPEED motor1 = 500
   \<and> 0 < \<bar>3::int\<bar> \<and> \<bar>3\<bar> < MIN_SPEED motor1 \<and> MIN_SPEED motor1 = 10
   \<and> \<not> short_move motor1 2000 500 \<and> cruise_count motor1 2000 500 = 1000
   \<and> cruise_speed_of_move motor1 2000 1000 = Some 500
   \<and> \<not> short_move motor1 100 10 \<and> cruise_count motor1 100 10 = 80
   \<and> cruise_speed_of_move motor1 100 3 = Some 10
   \<and> short_move motor1 19 10 \<and> cruise_speed_of_move motor1 19 3 = Some 10
   \<and> cruise_speed_of_move motor1 (2 ^ 1025) 1000 = None
   \<and> move motor1 (PInt (2 ^ 1025)) (PInt 1000)
       = Inl (OverflowError, motor1\<lparr> direction := Some 1 \<rparr>, [])"
proof -
  have a: "MIN_SPEED motor1 \<le> MAX_SPEED motor1" by (simp add: motor1_fields)
  have hi: "(MAX_SPEED motor1 < \<bar>1000\<bar> \<and> 500 = MAX_SPEED motor1)
         \<or> (0 < \<bar>1000::int\<bar> \<and> \<bar>1000\<bar> < MIN_SPEED motor1 \<and> 500 = MIN_SPEED motor1)"
    by (simp add: motor1_fields)
  have lo: "(MAX_SPEED motor1 < \<bar>3\<bar> \<and> 10 = MAX_SPEED motor1)
         \<or> (0 < \<bar>3::int\<bar> \<and> \<bar>3\<bar> < MIN_SPEED motor1 \<and> 10 = MIN_SPEED motor1)"
    by (simp add: motor1_fields)
  have n1: "(0::int) \<le> 2000" and n2: "(0::int) \<le> 100" and n3: "(0::int) \<le> 19"
    and n4: "(0::int) \<le> 2 ^ 1025"
    by simp_all
  have o1: "\<not> double_overflow (of_int 2000 / 2)" and o2: "\<not> double_overflow (of_int 100 / 2)"
    and o3: "\<not> double_overflow (of_int 19 / 2)"
    by (simp_all add: double_overflow_def)
  have o4: "double_overflow (of_int (2 ^ 1025) / 2)" by (simp add: double_overflow_def)
  have p1: "\<not> short_move motor1 2000 500" "cruise_count motor1 2000 500 = 1000"
    using plan_default[OF motor1_default n1, of 500] o1 by simp_all
  have p2: "\<not> short_move motor1 100 10" "cruise_count motor1 100 10 = 80"
    using plan_default[OF motor1_default n2, of 10] o2 by simp_all
  have p3: "short_move motor1 19 10"
    using plan_default(1)[OF motor1_default n3, of 10] by simp
  have c1: "cruise_speed_of_move motor1 2000 1000 = Some 500"
    using cruise_speed_limited[OF motor1_ok a n1 hi] o1 by (simp add: motor1_fields)
  have c2: "cruise_speed_of_move motor1 100 3 = Some 10"
    using cruise_speed_limited[OF motor1_ok a n2 lo] o2 by (simp add: motor1_fields)
  have c3: "cruise_speed_of_move motor1 19 3 = Some 10"
    using cruise_speed_limited[OF motor1_ok a n3 lo] o3 by (simp add: motor1_fields)
  have c4: "cruise_speed_of_move motor1 (2 ^ 1025) 1000 = None"
    "move motor1 (PInt (2 ^ 1025)) (PInt 1000)
       = Inl (OverflowError, motor1\<lparr> direction := Some 1 \<rparr>, [])"
    using cruise_speed_limited[OF motor1_ok a n4 hi] o4 by (simp_all add: set_direction_eq)
  from motor1_ok a p1 p2 p3 c1 c2 c3 c4 show ?thesis by (simp add: motor1_fields)
qed

text \<open>
  The statement of C2 before the amendment fails at \<^verbatim>\<open>move(20, 1000)\<close> on the fresh
  object: the requested speed exceeds \<open>MAX_SPEED = 500\<close>, but the ramps are cut to 10
  steps and line 157 lowers the speed handed to the cruise to the 11 steps per second
  the ramp up has reached.
\<close>

theorem cruise_speed_of_short_move:
  "MAX_SPEED motor1 = 500 \<and> MAX_SPEED motor1 < \<bar>1000\<bar>
   \<and> cruise_speed_of_move motor1 20 1000 = Some 11"
  using move_default_20_1000[OF motor1_ok(1) motor1_default] by (auto simp: motor1_fields)

section \<open>Validation failures of move\<close>

text \<open>
  C3. Each of \<^verbatim>\<open>move(None, 100)\<close>, \<^verbatim>\<open>move(-5, 100)\<close> and \<^verbatim>\<open>move(100, "abc")\<close> returns a
  message describing the failure, makes no pin write and no sleep (the trace is
  empty), and returns the object as it was: step counter, direction and speed, and
  every other field, are unchanged. This holds from every state.
\<close>

theorem move_rejects_invalid:
  "move self PNone (PInt 100)
     = Inr (Some ''Invalid input. You should choose a value for *step_num*'', self, [])
   \<and> move self (PInt (- 5)) (PInt 100)
     = Inr (Some ''Invalid input. step_num has to be positive'', self, [])
   \<and> move self (PInt 100) (PStr ''abc'')
     = Inr (Some ''Invalid input. speed has to be an integer'', self, [])"
  by (simp add: move_def py_int_def int_of_string_def strip_def is_space_def is_digit_def)

section \<open>The phase of a step\<close>

text \<open>
  C4. For every step counter and a direction of +1 or -1, \<^verbatim>\<open>run_one_step\<close> computes
  \<open>phase = (num_step mod 8) * direction\<close>, which lies between -7 and 7; the lookup
  \<^verbatim>\<open>half[phase]\<close>, with Python's wrap-around of negative indices, is in bounds and
  yields the row at the normalised index \<open>((num_step * direction) mod 8 + 8) mod 8\<close>;
  that row is what the step writes to the four pins.
\<close>

theorem run_one_step_phase:
  assumes "wired self" and "direction self = Some d" and "d = 1 \<or> d = - 1"
  shows "- 7 \<le> (num_step self mod 8) * d \<and> (num_step self mod 8) * d \<le> 7
    \<and> py_getitem (half self) ((num_step self mod 8) * d)
        = Inr (half_table ! nat (((num_step self * d) mod 8 + 8) mod 8))
    \<and> run_one_step self
        = Inr (step_writes self
                 (half_table ! nat (((num_step self * d) mod 8 + 8) mod 8)))"
proof -
  have b: "0 \<le> num_step self mod 8" "num_step self mod 8 < 8" by simp_all
  from assms(3) b have "- 7 \<le> (num_step self mod 8) * d \<and> (num_step self mod 8) * d \<le> 7"
    by auto
  moreover have "py_getitem (half self) ((num_step self mod 8) * d)
        = Inr (half_table ! nat (((num_step self * d) mod 8 + 8) mod 8))"
    using half_table_phase[OF assms(3)] assms(1) by (simp add: wired_def)
  ultimately show ?thesis using run_one_step_wired[OF assms] by simp
qed

theorem run_one_step_phase_witness:
  "wired (motor1\<lparr>direction := Some (- 1), num_step := 3\<rparr>)
   \<and> py_getitem half_table (- 3) = Inr [0, 0, 1, 0]
   \<and> run_one_step (motor1\<lparr>direction := Some (- 1), num_step := 3\<rparr>)
       = Inr [DigitalWrite (PInt 7) 0, DigitalWrite (PInt 0) 0,
              DigitalWrite (PInt 2) 1, DigitalWrite (PInt 3) 0]"
proof -
  have w: "wired (motor1\<lparr>direction := Some (- 1), num_step := 3\<rparr>)"
    by (simp add: wired_def motor1_def)
  have d: "direction (motor1\<lparr>direction := Some (- 1), num_step := 3\<rparr>) = Some (- 1)"
    by simp
  have o: "(- 1::int) = 1 \<or> (- 1::int) = - 1" by simp
  have r: "half_table ! nat (((3 * (- 1)) mod 8 + 8) mod 8) = [0, 0, 1, 0]"
    by (simp add: half_table_def)
  from run_one_step_phase[OF w d o] r w show ?thesis
    by (simp add: step_writes_def motor1_def)
qed

section \<open>Short moves\<close>

text \<open>
  C5 (amended). For every move with a step count that is not negative whose limited
  speed \<open>S\<close> satisfies the test of line 150 (\<open>int(S / acceleration_factor) >
  step_num / 2\<close>), on an object with the wiring in place and the limits in range:
  \<open>acceleration_steps\<close> is the float \<open>step_num / 2\<close>, \<open>constant_speed_steps\<close> is the
  float 0 and the cruise makes no step; the speed
  handed to the cruise is \<open>acceleration_factor * (step_num div 2 + 1)\<close>, which is at
  most \<open>S\<close>; and every step of the move sleeps at a speed of at most that value,
  so the peak speed is at most \<open>S\<close>.
\<close>

theorem short_move_profile:
  assumes "wired self" and "limits_ok self" and "0 \<le> n"
    and "target_speed self v = S" and "short_move self n S"
  shows "acceleration_steps self n S = Inr (FloatN (of_int n / 2))
    \<and> constant_speed_steps n (FloatN (of_int n / 2)) = Inr (FloatN 0)
    \<and> cruise_count self n S = 0
    \<and> cruise_speed_of_move self n v = Some (acceleration_factor self * (n div 2 + 1))
    \<and> acceleration_factor self * (n div 2 + 1) \<le> S
    \<and> (\<exists>s evs. move self (PInt n) (PInt v) = Inr (None, s, evs)
          \<and> length (sleeps evs) = 2 * nat (n div 2)
          \<and> (\<forall>x\<in>set (sleeps evs). x \<le> acceleration_factor self * (n div 2 + 1))
          \<and> peak_speed evs \<le> S)"
proof -
  let ?f = "acceleration_factor self"
  let ?m = "nat (n div 2)"
  let ?P = "?f * (n div 2 + 1)"
  note lim = limits_okD(1,2)[OF assms(2)] limits_okD(3,4)[OF assms(2), of v, unfolded assms(4)]
  from lim(1) have f1: "1 \<le> ?f" .
  from lim(3) have S0: "0 \<le> S" .
  note plan = plan_short[OF lim assms(3,5)]
  from assms(3) have i: "int ?m = n div 2" by simp
  have "n div 2 + 1 \<le> S div ?f" using plan(5) by simp
  then have "?P \<le> ?f * (S div ?f)" using f1 by (simp add: mult_left_mono)
  with div_mult_bounds(1)[OF f1, of S] have le: "?P \<le> S" by simp
  from move_run[OF assms(1,2,3) plan(6), of v] obtain evs where
    m: "move self (PInt n) (PInt v)
          = Inr (None, self\<lparr> direction := Some (if 0 \<le> v then 1 else - 1), actual_speed := 0,
                 num_step := num_step self
                   + (2 * int (ramp_count self n S) + int (cruise_count self n S))
                     * (if 0 \<le> v then 1 else - 1) \<rparr>, evs)"
    and sl: "sleeps evs = map (\<lambda>j. ?f * (int j + 1)) [0..<?m] @ map (\<lambda>j. ?P - int j * ?f) [0..<?m]"
    and cs: "cruise_speed_of_move self n v = Some ?P"
    unfolding assms(4) plan(3,4) using assms(5,3) by auto
  have len: "length (sleeps evs) = 2 * ?m" by (simp add: sl)
  have bound: "\<forall>x\<in>set (sleeps evs). x \<le> ?P"
  proof
    fix x assume "x \<in> set (sleeps evs)"
    then consider j where "j < ?m" "x = ?f * (int j + 1)"
      | j where "j < ?m" "x = ?P - int j * ?f"
      unfolding sl by auto
    then show "x \<le> ?P"
    proof cases
      case 1
      then have "int j + 1 \<le> n div 2 + 1" using i by linarith
      then show ?thesis using f1 1(2) by (simp add: mult_left_mono)
    next
      case 2
      have "0 \<le> int j * ?f" using f1 by simp
      with 2(2) show ?thesis by simp
    qed
  qed
  have S1: "0 \<le> S" by (rule S0)
  have "peak_speed evs \<le> S"
    unfolding peak_speed_def
  proof (rule fold_max_le)
    fix x assume "x \<in> set (sleeps evs)"
    with bound le show "x \<le> S" by force
  qed (rule S1)
  with plan(1,2,4) cs le m len bound show ?thesis by blast
qed

text \<open>The hypotheses of C5 hold for \<^verbatim>\<open>move(19, 10)\<close> on the fresh object.\<close>

theorem short_move_profile_witness:
  "wired motor1 \<and> limits_ok motor1 \<and> (0::int) \<le> 19 \<and> target_speed motor1 10 = 10
   \<and> short_move motor1 19 10
   \<and> cruise_count motor1 19 10 = 0
   \<and> cruise_speed_of_move motor1 19 10 = Some 10
   \<and> (\<exists>s evs. move motor1 (PInt 19) (PInt 10) = Inr (None, s, evs)
         \<and> length (sleeps evs) = 18 \<and> peak_speed evs \<le> 10)"
proof -
  have n: "(0::int) \<le> 19" by simp
  have S: "target_speed motor1 10 = 10"
    by (simp add: target_speed_def speed_limits_def motor1_fields)
  have sh: "short_move motor1 19 10"
    using plan_default(1)[OF motor1_default n, of 10] by simp
  from short_move_profile[OF motor1_ok n S sh] motor1_ok n S sh show ?thesis
    by (auto simp: motor1_fields)
qed

text \<open>
  The statement of C5 before the amendment fails at \<^verbatim>\<open>move(19, 10)\<close> on the fresh
  object: \<open>10 > 19 / 2\<close>, so the move is short, yet the ramp up of 9 steps leaves the
  speed at 10, the first step of the ramp down sleeps at 10, and the peak is the
  limited speed itself, not below it.
\<close>

theorem short_move_reaches_target:
  "target_speed motor1 10 = 10 \<and> short_move motor1 19 (target_speed motor1 10)
   \<and> cruise_speed_of_move motor1 19 10 = Some 10
   \<and> map_option peak_speed (result_trace (move motor1 (PInt 19) (PInt 10))) = Some 10"
proof -
  have S: "target_speed motor1 10 = 10"
    by (simp add: target_speed_def speed_limits_def motor1_fields)
  have sh: "short_move motor1 19 10"
    using plan_default(1)[OF motor1_default, of 19 10] by simp
  from move_default_19_10[OF motor1_ok(1) motor1_default] obtain s evs where
    m: "move motor1 (PInt 19) (PInt 10) = Inr (None, s, evs)"
    and sl: "sleeps evs = [1, 2, 3, 4, 5, 6, 7, 8, 9, 10, 9, 8, 7, 6, 5, 4, 3, 2]"
    and cs: "cruise_speed_of_move motor1 19 10 = Some 10"
    by blast
  have "peak_speed evs = 10" by (simp add: sl peak_speed_def)
  with S sh cs show ?thesis by (simp add: m result_trace_Inr)
qed

section \<open>The move of 20 steps at speed 100\<close>

text \<open>
  C6 (amended). With \<open>acceleration_factor = 1\<close>, \<open>MIN_SPEED = 10\<close> and
  \<open>MAX_SPEED = 500\<close>, \<^verbatim>\<open>move(20, 100)\<close> cuts \<open>acceleration_steps\<close> to the float 10,
  has the float 0 for \<open>constant_speed_steps\<close> and no step of cruise, makes 20 steps in all, ten up
  and ten down, reaches a peak speed of exactly 11 steps per second, and adds exactly
  20 to the step counter.
\<close>

theorem move_20_100_profile:
  assumes "wired self" and "default_limits self"
  shows "acceleration_steps self 20 (target_speed self 100) = Inr (FloatN 10)
    \<and> constant_speed_steps 20 (FloatN 10) = Inr (FloatN 0)
    \<and> cruise_count self 20 (target_speed self 100) = 0
    \<and> (\<exists>evs. move self (PInt 20) (PInt 100)
            = Inr (None, self\<lparr> direction := Some 1, actual_speed := 0,
                                num_step := num_step self + 20 \<rparr>, evs)
          \<and> sleeps evs = [1, 2, 3, 4, 5, 6, 7, 8, 9, 10, 11, 10, 9, 8, 7, 6, 5, 4, 3, 2]
          \<and> length (sleeps evs) = 20
          \<and> peak_speed evs = 11)"
proof -
  from assms(2) have f: "acceleration_factor self = 1" by (simp add: default_limits_def)
  have S: "target_speed self 100 = 100"
    using assms(2) by (simp add: target_speed_def speed_limits_def default_limits_def)
  have l: "limits_ok self" using assms(2) by (rule default_limits_ok)
  note lim = limits_okD(1,2)[OF l] limits_okD(3,4)[OF l, of 100, unfolded S]
  have n: "(0::int) \<le> 20" by simp
  have sh: "short_move self 20 100"
    using plan_default(1)[OF assms(2) n, of 100] by simp
  have a: "acceleration_steps self 20 100 = Inr (FloatN 10)"
    and c: "constant_speed_steps 20 (FloatN 10) = Inr (FloatN 0)"
    and k: "cruise_count self 20 100 = 0"
    using plan_short(1,2,4)[OF lim n sh] by simp_all
  from move_default_20_100[OF assms] obtain evs where
    m: "move self (PInt 20) (PInt 100)
            = Inr (None, self\<lparr> direction := Some 1, actual_speed := 0,
                                num_step := num_step self + 20 \<rparr>, evs)"
    and sl: "sleeps evs = [1, 2, 3, 4, 5, 6, 7, 8, 9, 10, 11, 10, 9, 8, 7, 6, 5, 4, 3, 2]"
    by blast
  have "length (sleeps evs) = 20" and "peak_speed evs = 11"
    by (simp_all add: sl peak_speed_def)
  with m sl a c k show ?thesis unfolding S by blast
qed

text \<open>The fresh object has the wiring and the constants that C6 asks for.\<close>

theorem move_20_100_profile_witness:
  "wired motor1 \<and> default_limits motor1
   \<and> acceleration_steps motor1 20 (target_speed motor1 100) = Inr (FloatN 10)
   \<and> (\<exists>evs. move motor1 (PInt 20) (PInt 100)
          = Inr (None, motor1\<lparr> direction := Some 1, actual_speed := 0, num_step := 20 \<rparr>, evs)
        \<and> peak_speed evs = 11)"
  using move_20_100_profile[OF motor1_ok(1) motor1_default] motor1_ok(1) motor1_default
  by (auto simp: motor1_fields)

text \<open>
  The statement of C6 before the amendment fails on the fresh object: the peak speed
  of \<^verbatim>\<open>move(20, 100)\<close> is 11, not 10. The tenth step of the ramp up sleeps at 10 and
  raises the speed to 11, and the first step of the ramp down sleeps at 11.
\<close>

theorem move_20_100_peak_is_11:
  "map_option peak_speed (result_trace (move motor1 (PInt 20) (PInt 100))) = Some 11
   \<and> map_option peak_speed (result_trace (move motor1 (PInt 20) (PInt 100))) \<noteq> Some 10"
proof -
  from move_default_20_100[OF motor1_ok(1) motor1_default] obtain s evs where
    m: "move motor1 (PInt 20) (PInt 100) = Inr (None, s, evs)"
    and sl: "sleeps evs = [1, 2, 3, 4, 5, 6, 7, 8, 9, 10, 11, 10, 9, 8, 7, 6, 5, 4, 3, 2]"
    by blast
  have "peak_speed evs = 11" by (simp add: sl peak_speed_def)
  then show ?thesis by (simp add: m result_trace_Inr)
qed

section \<open>Construction\<close>

text \<open>
  The constructor on \<^verbatim>\<open>(7, 0, 2, 3)\<close>, and on pins it refuses: integers out of range or
  used twice, and a string that is not an integer, raise \<open>ConfigurationError\<close> before
  any pin is configured.
\<close>

lemma check_pins_ints:
  "check_pins (PInt a) (PInt b) (PInt c) (PInt d)
   = (case pins_in_range [a, b, c, d] 0 of
        Inl e \<Rightarrow> Inl e
      | Inr u \<Rightarrow>
          if length (remdups [a, b, c, d]) \<noteq> 4
          then Inl (ConfigurationError
            ''There are two different pins with the same number. Pins must have unique numbers'')
          else Inr [a, b, c, d])"
  by (simp add: check_pins_def try_int_pin_def py_int_def)

lemma Stepper_init_motor1:
  "Stepper_init (PInt 7) (PInt 0) (PInt 2) (PInt 3)
   = ([WiringPiSetup,
       PinMode (PInt 7) 1, PinMode (PInt 0) 1, PinMode (PInt 2) 1, PinMode (PInt 3) 1,
       DigitalWrite (PInt 7) 0, DigitalWrite (PInt 0) 0, DigitalWrite (PInt 2) 0,
       DigitalWrite (PInt 3) 0], Inr motor1)"
  by (simp add: Stepper_init_def check_pins_ints motor1_def)

lemma pins_in_range_fails:
  "\<not> (\<forall>p\<in>set ps. 0 \<le> p \<and> p \<le> 16) \<Longrightarrow> \<exists>msg. pins_in_range ps i = Inl (ConfigurationError msg)"
  by (induction ps arbitrary: i) auto

lemma pins_in_range_passes:
  "\<forall>p\<in>set ps. 0 \<le> p \<and> p \<le> 16 \<Longrightarrow> pins_in_range ps i = Inr ()"
  by (induction ps arbitrary: i) auto

lemma remdups_4: "length xs = 4 \<Longrightarrow> (length (remdups xs) \<noteq> 4) = (\<not> distinct xs)"
  using length_remdups_eq[of xs] remdups_id_iff_distinct[of xs] by simp

lemma Stepper_init_rejects_int_pins:
  assumes "\<not> (\<forall>p\<in>set [a, b, c, d]. 0 \<le> p \<and> p \<le> 16) \<or> \<not> distinct [a, b, c, d]"
  shows "\<exists>msg. Stepper_init (PInt a) (PInt b) (PInt c) (PInt d)
           = ([WiringPiSetup], Inl (ConfigurationError msg))"
proof (cases "\<forall>p\<in>set [a, b, c, d]. 0 \<le> p \<and> p \<le> 16")
  case False
  from pins_in_range_fails[OF False, of 0] obtain msg where
    "pins_in_range [a, b, c, d] 0 = Inl (ConfigurationError msg)" by blast
  then show ?thesis by (simp add: Stepper_init_def check_pins_ints)
next
  case True
  with assms have nd: "\<not> distinct [a, b, c, d]" by blast
  have "length (remdups [a, b, c, d]) \<noteq> 4"
    using remdups_4[of "[a, b, c, d]"] nd by simp
  with pins_in_range_passes[OF True, of 0] show ?thesis
    by (simp add: Stepper_init_def check_pins_ints del: remdups.simps)
qed

lemma Stepper_init_rejects_string_pin:
  assumes "int_of_string s = None"
  shows "Stepper_init (PStr s) i2 i3 i4
         = ([WiringPiSetup],
            Inl (ConfigurationError (''The first pin ID is not an integer: '' @ s)))"
  using assms by (simp add: Stepper_init_def check_pins_def try_int_pin_def py_int_def py_str_def)

text \<open>
  C7. Construction is claimed to raise \<open>ConfigurationError\<close>, and no other error,
  whenever a pin identifier has an invalid type. \<^verbatim>\<open>check_pins\<close> catches only
  \<open>ValueError\<close>: for \<^verbatim>\<open>Stepper(None, 0, 2, 3)\<close> the \<open>TypeError\<close> of \<^verbatim>\<open>int(None)\<close>
  leaves the constructor as it is, before any pin is configured.
\<close>

theorem Stepper_init_None_pin:
  "Stepper_init PNone (PInt 0) (PInt 2) (PInt 3) = ([WiringPiSetup], Inl TypeError)"
  by (simp add: Stepper_init_def check_pins_def try_int_pin_def py_int_def)

section \<open>No division by zero\<close>

text \<open>
  C8. For every move with a step count that is not negative, on an object with the
  wiring in place and the limits in range (\<open>acceleration_factor\<close> and \<open>MIN_SPEED\<close> at
  least 1, and both and \<open>MAX_SPEED\<close> below \<open>2 ^ 52\<close>; the constructor sets 1, 10 and
  500). If the half of the step count is too large for a float, from
  \<open>2 ^ 1025 - 2 ^ 971\<close> steps on, line 150 raises \<open>OverflowError\<close> before any step
  and any delay. Otherwise the three phases return, none raises \<open>ZeroDivisionError\<close>;
  the ramp up sleeps first at \<open>acceleration_factor\<close>, then at its multiples; the speed
  of the cruise is positive; the ramp down leaves the speed at exactly 0; and every
  sleep of the move divides by a speed that is strictly positive.
\<close>

theorem delays_positive:
  assumes "wired self" and "limits_ok self" and "0 \<le> n"
  shows "if double_overflow (of_int n / 2)
    then move self (PInt n) (PInt v) = Inl (OverflowError, set_direction self v, [])
    else (\<exists>acc const s1 ev1 s2 ev2 s3 ev3.
        acceleration_steps self n (target_speed self v) = Inr acc
      \<and> constant_speed_steps n acc = Inr const
      \<and> linear_acceleration (set_direction self v) acc True = Inr (s1, ev1)
      \<and> sleeps ev1 = map (\<lambda>j. acceleration_factor self * (int j + 1))
                        [0..<ramp_count self n (target_speed self v)]
      \<and> move_with_constant_speed s1 const (cruise_speed (target_speed self v) s1)
          = Inr (s2, ev2)
      \<and> 0 < cruise_speed (target_speed self v) s1
      \<and> linear_acceleration s2 acc False = Inr (s3, ev3)
      \<and> actual_speed s3 = 0
      \<and> move self (PInt n) (PInt v) = Inr (None, s3, ev1 @ ev2 @ ev3)
      \<and> (\<forall>x\<in>set (sleeps (ev1 @ ev2 @ ev3)). 0 < x))"
proof (cases "double_overflow (of_int n / 2)")
  case True
  from move_overflow(1)[OF assms(2,3) True, of v] True show ?thesis by simp
next
  case False
  let ?S = "target_speed self v" and ?f = "acceleration_factor self"
  let ?m = "ramp_count self n ?S" and ?c = "cruise_count self n ?S"
  let ?C = "if short_move self n ?S then ?f * (int ?m + 1) else ?S"
  from move_valid_phases[OF assms False, of v] obtain acc const s1 ev1 s2 ev2 s3 ev3 where
    ac: "acceleration_steps self n ?S = Inr acc"
    and co: "constant_speed_steps n acc = Inr const"
    and up: "linear_acceleration (set_direction self v) acc True = Inr (s1, ev1)"
    and cr: "move_with_constant_speed s1 const (cruise_speed ?S s1) = Inr (s2, ev2)"
    and dn: "linear_acceleration s2 acc False = Inr (s3, ev3)"
    and mv: "move_valid self n v = Inr (None, s3, ev1 @ ev2 @ ev3)"
    and cs: "cruise_speed ?S s1 = ?C"
    and pos: "0 < ?C" "\<forall>j<?m. 0 < ?C - int j * ?f"
    and s3: "s3 = self\<lparr> direction := Some (if 0 \<le> v then 1 else - 1), actual_speed := 0,
                  num_step := num_step self + (2 * int ?m + int ?c) * (if 0 \<le> v then 1 else - 1) \<rparr>"
    and sl: "sleeps ev1 = map (\<lambda>j. ?f * (int j + 1)) [0..<?m]" "sleeps ev2 = replicate ?c ?C"
      "sleeps ev3 = map (\<lambda>j. ?C - int j * ?f) [0..<?m]"
    by blast
  from assms(2) have f1: "1 \<le> ?f" by (simp add: limits_ok_def)
  have "sleeps (ev1 @ ev2 @ ev3)
        = map (\<lambda>j. ?f * (int j + 1)) [0..<?m] @ replicate ?c ?C
          @ map (\<lambda>j. ?C - int j * ?f) [0..<?m]"
    by (simp only: sleeps_append sl)
  with sleeps_positive_parts[OF f1 pos, of ?c]
  have all: "\<forall>x\<in>set (sleeps (ev1 @ ev2 @ ev3)). 0 < x" by simp
  have z: "actual_speed s3 = 0" by (simp add: s3)
  have m: "move self (PInt n) (PInt v) = Inr (None, s3, ev1 @ ev2 @ ev3)"
    using mv assms(3) by (simp add: move_ints)
  have cp: "0 < cruise_speed ?S s1" using cs pos(1) by simp
  from ac co up sl(1) cr cp dn z m all
  have "\<exists>acc const s1 ev1 s2 ev2 s3 ev3.
        acceleration_steps self n ?S = Inr acc
      \<and> constant_speed_steps n acc = Inr const
      \<and> linear_acceleration (set_direction self v) acc True = Inr (s1, ev1)
      \<and> sleeps ev1 = map (\<lambda>j. ?f * (int j + 1)) [0..<?m]
      \<and> move_with_constant_speed s1 const (cruise_speed ?S s1) = Inr (s2, ev2)
      \<and> 0 < cruise_speed ?S s1
      \<and> linear_acceleration s2 acc False = Inr (s3, ev3)
      \<and> actual_speed s3 = 0
      \<and> move self (PInt n) (PInt v) = Inr (None, s3, ev1 @ ev2 @ ev3)
      \<and> (\<forall>x\<in>set (sleeps (ev1 @ ev2 @ ev3)). 0 < x)"
    by blast
  with False show ?thesis by (simp only: if_False)
qed

text \<open>
  The hypotheses of C8 hold on the fresh object: \<^verbatim>\<open>move(20, 100)\<close> returns with
  positive speeds at all its sleeps, and \<^verbatim>\<open>move(2 ** 1025, 100)\<close> raises
  \<open>OverflowError\<close> with no step made.
\<close>

theorem delays_positive_witness:
  "wired motor1 \<and> limits_ok motor1 \<and> (0::int) \<le> 20 \<and> (0::int) \<le> 2 ^ 1025
   \<and> \<not> double_overflow (of_int 20 / 2) \<and> double_overflow (of_int (2 ^ 1025) / 2)
   \<and> (\<exists>s evs. move motor1 (PInt 20) (PInt 100) = Inr (None, s, evs)
         \<and> actual_speed s = 0 \<and> list_all (\<lambda>x. 0 < x) (sleeps evs))
   \<and> move motor1 (PInt (2 ^ 1025)) (PInt 100)
       = Inl (OverflowError, motor1\<lparr> direction := Some 1 \<rparr>, [])"
proof -
  have n: "(0::int) \<le> 20" and n': "(0::int) \<le> 2 ^ 1025" by simp_all
  have o: "\<not> double_overflow (of_int 20 / 2)" and o': "double_overflow (of_int (2 ^ 1025) / 2)"
    by (simp_all add: double_overflow_def)
  from delays_positive[OF motor1_ok n, of 100] o obtain s evs where
    "move motor1 (PInt 20) (PInt 100) = Inr (None, s, evs)" "actual_speed s = 0"
    "\<forall>x\<in>set (sleeps evs). 0 < x"
    by (simp only: if_False) blast
  then have a: "\<exists>s evs. move motor1 (PInt 20) (PInt 100) = Inr (None, s, evs)
         \<and> actual_speed s = 0 \<and> list_all (\<lambda>x. 0 < x) (sleeps evs)"
    by (auto simp: list_all_iff)
  from delays_positive[OF motor1_ok n', of 100] o'
  have b: "move motor1 (PInt (2 ^ 1025)) (PInt 100)
       = Inl (OverflowError, motor1\<lparr> direction := Some 1 \<rparr>, [])"
    by (simp only: if_True set_direction_eq) simp
  from motor1_ok n n' o o' a b show ?thesis by blast
qed

section \<open>There and back\<close>

text \<open>
  C9 (amended). For every step count \<open>N\<close> that is not negative, every speed \<open>S\<close>
  other than 0 and every object with the wiring in place and the limits in range,
  after \<^verbatim>\<open>move(N, S)\<close> followed by \<^verbatim>\<open>move(N, -S)\<close> the step counter is back at its
  original value. Both calls return, unless the half of \<open>N\<close> is too large for a
  float: then both raise \<open>OverflowError\<close> on line 150 before any step.
\<close>

theorem move_there_and_back:
  assumes "wired self" and "limits_ok self" and "0 \<le> n" and "v \<noteq> 0"
  shows "num_step (final_state (move (final_state (move self (PInt n) (PInt v)))
                                    (PInt n) (PInt (- v))))
         = num_step self
    \<and> (if double_overflow (of_int n / 2)
       then move self (PInt n) (PInt v) = Inl (OverflowError, set_direction self v, [])
          \<and> move (set_direction self v) (PInt n) (PInt (- v))
              = Inl (OverflowError, set_direction self (- v), [])
       else (\<exists>s1 ev1 s2 ev2.
            move self (PInt n) (PInt v) = Inr (None, s1, ev1)
          \<and> move s1 (PInt n) (PInt (- v)) = Inr (None, s2, ev2)
          \<and> num_step s2 = num_step self))"
proof (cases "double_overflow (of_int n / 2)")
  case True
  let ?s1 = "set_direction self v"
  have m1: "move self (PInt n) (PInt v) = Inl (OverflowError, ?s1, [])"
    by (rule move_overflow(1)[OF assms(2,3) True])
  have u: "unchanged self ?s1" by (simp add: set_direction_eq unchanged_def)
  have l1: "limits_ok ?s1" using assms(2) by (simp only: plan_frame[OF u])
  have e: "set_direction ?s1 (- v) = set_direction self (- v)"
    by (simp add: set_direction_eq)
  have m2: "move ?s1 (PInt n) (PInt (- v)) = Inl (OverflowError, set_direction self (- v), [])"
    using move_overflow(1)[OF l1 assms(3) True, of "- v"] by (simp only: e)
  have "num_step (final_state (move (final_state (move self (PInt n) (PInt v)))
                                    (PInt n) (PInt (- v)))) = num_step self"
    by (simp only: m1 m2 final_state_simps) (simp add: set_direction_eq)
  with m1 m2 True show ?thesis by (simp only: if_True)
next
  case False
  let ?S = "target_speed self v"
  let ?k = "2 * int (ramp_count self n ?S) + int (cruise_count self n ?S)"
  let ?d = "if 0 \<le> v then 1 else - 1 :: int"
  let ?s1 = "self\<lparr> direction := Some ?d, actual_speed := 0,
                    num_step := num_step self + ?k * ?d \<rparr>"
  from move_run[OF assms(1,2,3) False, of v] obtain ev1 where
    m1: "move self (PInt n) (PInt v) = Inr (None, ?s1, ev1)"
    by blast
  have u: "unchanged self ?s1" by (simp add: unchanged_def)
  have w1: "wired ?s1" and l1: "limits_ok ?s1"
    using assms(1,2) by (simp_all only: plan_frame[OF u])
  have S: "target_speed ?s1 (- v) = ?S"
    by (simp only: plan_frame[OF u]) (simp add: target_speed_abs)
  let ?d' = "if 0 \<le> - v then 1 else - 1 :: int"
  let ?s2 = "?s1\<lparr> direction := Some ?d', actual_speed := 0,
                    num_step := num_step ?s1 + ?k * ?d' \<rparr>"
  from move_run[OF w1 l1 assms(3) False, of "- v"] obtain ev2 where
    m2: "move ?s1 (PInt n) (PInt (- v)) = Inr (None, ?s2, ev2)"
    unfolding S plan_frame(3,4)[OF u] by blast
  have "?d' = - ?d" using assms(4) by simp
  then have ns: "num_step ?s2 = num_step self" by (simp add: algebra_simps)
  have fs: "num_step (final_state (move (final_state (move self (PInt n) (PInt v)))
                                    (PInt n) (PInt (- v)))) = num_step self"
    by (simp only: m1 m2 final_state_simps ns)
  from m1 m2 ns have "\<exists>s1 ev1 s2 ev2.
            move self (PInt n) (PInt v) = Inr (None, s1, ev1)
          \<and> move s1 (PInt n) (PInt (- v)) = Inr (None, s2, ev2)
          \<and> num_step s2 = num_step self"
    by blast
  with fs False show ?thesis by (simp only: if_False)
qed

text \<open>
  The hypotheses of C9 hold on the fresh object for \<open>N = 20\<close> and \<open>S = 100\<close>, where
  both calls return, and for \<open>N = 2 ^ 1025\<close>, where both raise.
\<close>

theorem move_there_and_back_witness:
  "wired motor1 \<and> limits_ok motor1 \<and> (0::int) \<le> 20 \<and> (100::int) \<noteq> 0
   \<and> (0::int) \<le> 2 ^ 1025
   \<and> \<not> double_overflow (of_int 20 / 2) \<and> double_overflow (of_int (2 ^ 1025) / 2)
   \<and> (\<exists>s1 ev1 s2 ev2.
         move motor1 (PInt 20) (PInt 100) = Inr (None, s1, ev1)
       \<and> move s1 (PInt 20) (PInt (- 100)) = Inr (None, s2, ev2)
       \<and> num_step s2 = num_step motor1)
   \<and> num_step (final_state (move (final_state (move motor1 (PInt (2 ^ 1025)) (PInt 100)))
                                  (PInt (2 ^ 1025)) (PInt (- 100))))
       = num_step motor1"
proof -
  have n: "(0::int) \<le> 20" and v: "(100::int) \<noteq> 0" and n': "(0::int) \<le> 2 ^ 1025"
    by simp_all
  have o: "\<not> double_overflow (of_int 20 / 2)" and o': "double_overflow (of_int (2 ^ 1025) / 2)"
    by (simp_all add: double_overflow_def)
  from move_there_and_back[OF motor1_ok n v] o
  have a: "\<exists>s1 ev1 s2 ev2.
         move motor1 (PInt 20) (PInt 100) = Inr (None, s1, ev1)
       \<and> move s1 (PInt 20) (PInt (- 100)) = Inr (None, s2, ev2)
       \<and> num_step s2 = num_step motor1"
    by (simp only: if_False)
  from move_there_and_back[OF motor1_ok n' v]
  have b: "num_step (final_state (move (final_state (move motor1 (PInt (2 ^ 1025)) (PInt 100)))
                                  (PInt (2 ^ 1025)) (PInt (- 100))))
       = num_step motor1"
    by blast
  from motor1_ok n v n' o o' a b show ?thesis by blast
qed

text \<open>
  The statement of C9 before the amendment fails at \<open>N = 2\<close> and \<open>S = 0\<close> on the
  fresh object: \<^verbatim>\<open>move(2, 0)\<close> and \<^verbatim>\<open>move(2, -0)\<close> are the same call, line 134 sends
  both in direction +1, and the counter ends at 4 instead of 0.
\<close>

theorem move_zero_speed_twice:
  "num_step motor1 = 0
   \<and> result_state (move motor1 (PInt 2) (PInt 0))
       = Some (motor1\<lparr> direction := Some 1, actual_speed := 0, num_step := 2 \<rparr>)
   \<and> map_option num_step
        (result_state (move (motor1\<lparr> direction := Some 1, actual_speed := 0, num_step := 2 \<rparr>)
                         (PInt 2) (PInt (- 0))))
       = Some 4"
proof -
  let ?s1 = "motor1\<lparr> direction := Some 1, actual_speed := 0, num_step := 2 \<rparr>"
  from move_default_2_0[OF motor1_ok(1) motor1_default] obtain ev1 where
    "move motor1 (PInt 2) (PInt 0)
       = Inr (None, motor1\<lparr> direction := Some 1, actual_speed := 0,
                             num_step := num_step motor1 + 2 \<rparr>, ev1)"
    by blast
  then have a: "result_state (move motor1 (PInt 2) (PInt 0)) = Some ?s1"
    by (simp add: result_state_Inr motor1_fields)
  have w: "wired ?s1" and d: "default_limits ?s1"
    by (simp_all add: wired_def default_limits_def motor1_def)
  from move_default_2_0[OF w d] obtain ev2 where
    "move ?s1 (PInt 2) (PInt 0)
       = Inr (None, ?s1\<lparr> direction := Some 1, actual_speed := 0,
                          num_step := num_step ?s1 + 2 \<rparr>, ev2)"
    by blast
  then have b: "map_option num_step (result_state (move ?s1 (PInt 2) (PInt (- 0)))) = Some 4"
    by (simp add: result_state_Inr)
  from a b show ?thesis by (simp add: motor1_fields)
qed

section \<open>The frame of move\<close>

text \<open>
  C10. Whenever \<^verbatim>\<open>move\<close> returns, with \<^verbatim>\<open>None\<close> or with the message of a validation
  failure, the pins \<open>inp\<close>, the table \<open>half\<close>, \<open>acceleration_factor\<close>, \<open>MIN_SPEED\<close> and
  \<open>MAX_SPEED\<close> are what they were, and the object differs from the one before the
  call in \<open>num_step\<close>, \<open>direction\<close> and \<open>actual_speed\<close> at most. This holds for every
  object and all arguments.
\<close>

theorem move_frame:
  assumes "move self a b = Inr (r, self', evs)"
  shows "inp self' = inp self \<and> half self' = half self
    \<and> acceleration_factor self' = acceleration_factor self
    \<and> MIN_SPEED self' = MIN_SPEED self \<and> MAX_SPEED self' = MAX_SPEED self
    \<and> self' = self\<lparr> num_step := num_step self', direction := direction self',
                      actual_speed := actual_speed self' \<rparr>"
proof -
  from move_unchanged[OF assms] have u: "unchanged self self'" .
  then have "self' = self\<lparr> num_step := num_step self', direction := direction self',
                      actual_speed := actual_speed self' \<rparr>"
    by (intro stepper.equality) (simp_all add: unchanged_def)
  with u show ?thesis by (simp add: unchanged_def)
qed

text \<open>\<^verbatim>\<open>move(2, 0)\<close> on the fresh object returns, and leaves the frame alone.\<close>

theorem move_frame_witness:
  "\<exists>evs. move motor1 (PInt 2) (PInt 0)
          = Inr (None, motor1\<lparr> direction := Some 1, actual_speed := 0, num_step := 2 \<rparr>, evs)
        \<and> inp (motor1\<lparr> direction := Some 1, actual_speed := 0, num_step := 2 \<rparr>) = inp motor1
        \<and> half (motor1\<lparr> direction := Some 1, actual_speed := 0, num_step := 2 \<rparr>) = half motor1
        \<and> MAX_SPEED (motor1\<lparr> direction := Some 1, actual_speed := 0, num_step := 2 \<rparr>)
            = MAX_SPEED motor1"
proof -
  from move_default_2_0[OF motor1_ok(1) motor1_default] obtain evs where
    e: "move motor1 (PInt 2) (PInt 0)
          = Inr (None, motor1\<lparr> direction := Some 1, actual_speed := 0,
                                num_step := num_step motor1 + 2 \<rparr>, evs)"
    by blast
  from move_frame[OF e] e show ?thesis by (simp add: motor1_fields)
qed

end
